theory Spec2Isabelle
  imports Complex_Main
begin

text \<open>
  A model of the Glow Wizard backend: the profile and questionnaire processing of
  \<open>profile-processor.js\<close>, the photo pipeline of \<open>photo-analyzer.js\<close>, the request
  schema of \<open>data-validator.js\<close>, the recommendation engine and the route of the
  server. Each function of the source is one definition of the same name; what a
  function throws is the \<open>Inl\<close> side of its result; the network, the identity provider,
  \<open>validator.isURL\<close> and the language model are parameters. The model comes first, the
  properties after it.
\<close>

section \<open>JavaScript numbers\<close>

text \<open>
  A JavaScript number is \<open>NaN\<close>, one of the two infinities, negative zero, or a finite
  value. A finite value is kept as a decimal \<open>Dec m e\<close>, standing for \<open>m * 10 ^ e\<close>:
  this is the shape in which the language prints and reads numbers, and every double
  has one. The canonical form has a mantissa that is not a multiple of ten (and
  \<open>Dec 0 0\<close> for positive zero); \<open>norm10\<close> computes it.
\<close>

datatype jsnum = NaN | PosInf | NegInf | NegZero | Dec int int

function norm10 :: "int \<Rightarrow> int \<Rightarrow> int \<times> int" where
  "norm10 m e =
     (if m = 0 then (0, 0)
      else if m mod 10 = 0 then norm10 (m div 10) (e + 1)
      else (m, e))"
  by pat_completeness auto
termination
  by (relation "measure (\<lambda>(m, e). nat \<bar>m\<bar>)") auto

declare norm10.simps [simp del]

definition mkDec :: "int \<Rightarrow> int \<Rightarrow> jsnum" where
  "mkDec m e = (case norm10 m e of (m', e') \<Rightarrow> Dec m' e')"

definition num_of_int :: "int \<Rightarrow> jsnum" where
  "num_of_int n = mkDec n 0"

definition dec_val :: "int \<Rightarrow> int \<Rightarrow> rat" where
  "dec_val m e = (if 0 \<le> e then of_int m * 10 ^ nat e else of_int m / 10 ^ nat (- e))"

text \<open>The relational operator \<open><\<close> on numbers: false as soon as one side is \<open>NaN\<close>.\<close>

fun num_lt :: "jsnum \<Rightarrow> jsnum \<Rightarrow> bool" where
  "num_lt NaN _ = False"
| "num_lt _ NaN = False"
| "num_lt PosInf _ = False"
| "num_lt NegInf NegInf = False"
| "num_lt NegInf _ = True"
| "num_lt _ PosInf = True"
| "num_lt _ NegInf = False"
| "num_lt NegZero NegZero = False"
| "num_lt NegZero (Dec m e) = (0 < dec_val m e)"
| "num_lt (Dec m e) NegZero = (dec_val m e < 0)"
| "num_lt (Dec m e) (Dec m' e') = (dec_val m e < dec_val m' e')"

definition num_gt :: "jsnum \<Rightarrow> jsnum \<Rightarrow> bool" where
  "num_gt a b = num_lt b a"

text \<open>\<open>a >= b\<close> is not the negation of \<open>a < b\<close>: both are false on \<open>NaN\<close>.\<close>

fun num_ge :: "jsnum \<Rightarrow> jsnum \<Rightarrow> bool" where
  "num_ge NaN _ = False"
| "num_ge _ NaN = False"
| "num_ge a b = (\<not> num_lt a b)"

text \<open>
  Rounding to a double (IEEE 754 binary64, to nearest, ties to even). \<open>roundFrac neg a b\<close>
  is the double nearest to the fraction \<open>a / b\<close>, with the sign \<open>neg\<close>: with \<open>fl\<close> the
  binary logarithm of the fraction, rounded down, the exponent of the last mantissa bit
  is \<open>fl - 52\<close>, and \<open>-1074\<close> in the subnormal range; the mantissa is the fraction
  divided by that power of two and rounded; a result of \<open>2 ^ 1024\<close> or more is an
  infinity, and a mantissa of 0 a zero of the same sign.
\<close>

function bitLength :: "nat \<Rightarrow> nat" where
  "bitLength n = (if n = 0 then 0 else Suc (bitLength (n div 2)))"
  by pat_completeness auto
termination
  by (relation "measure id") auto

declare bitLength.simps [simp del]

definition floorLog2 :: "nat \<Rightarrow> nat \<Rightarrow> int" where
  "floorLog2 a b =
     (let d = int (bitLength a) - int (bitLength b)
      in if b * 2 ^ nat d \<le> a * 2 ^ nat (- d) then d else d - 1)"

definition roundHalfEven :: "nat \<Rightarrow> nat \<Rightarrow> nat" where
  "roundHalfEven num den =
     (let qd = num div den; rm = num mod den
      in if 2 * rm < den then qd
         else if den < 2 * rm then qd + 1
         else if even qd then qd else qd + 1)"

definition signedZero :: "bool \<Rightarrow> jsnum" where
  "signedZero neg = (if neg then NegZero else Dec 0 0)"

text \<open>The decimal of \<open>m * 2 ^ e\<close>: for a negative \<open>e\<close> it is \<open>m * 5 ^ (- e) * 10 ^ e\<close>.\<close>

definition fromDyadic :: "bool \<Rightarrow> nat \<Rightarrow> int \<Rightarrow> jsnum" where
  "fromDyadic neg m e =
     (let sm = (if neg then - int m else int m)
      in if 0 \<le> e then mkDec (sm * 2 ^ nat e) 0 else mkDec (sm * 5 ^ nat (- e)) e)"

definition signedInfinity :: "bool \<Rightarrow> jsnum" where
  "signedInfinity neg = (if neg then NegInf else PosInf)"

definition roundFrac :: "bool \<Rightarrow> nat \<Rightarrow> nat \<Rightarrow> jsnum" where
  "roundFrac neg a b =
     (if a = 0 then signedZero neg
      else
        let fl = floorLog2 a b;
            e = max (fl - 52) (- 1074)
        in if 971 < e then signedInfinity neg
           else
             let m = roundHalfEven (a * 2 ^ nat (- e)) (b * 2 ^ nat e)
             in if m = 0 then signedZero neg
                else if e = 971 \<and> m = 2 ^ 53 then signedInfinity neg
                else fromDyadic neg m e)"

text \<open>The double nearest to the decimal \<open>m * 10 ^ e\<close>, with the sign \<open>neg\<close>.\<close>

definition roundDec :: "bool \<Rightarrow> nat \<Rightarrow> int \<Rightarrow> jsnum" where
  "roundDec neg m e =
     (if 0 \<le> e then roundFrac neg (m * 10 ^ nat e) 1
      else roundFrac neg m (10 ^ nat (- e)))"

section \<open>JavaScript strings and values\<close>

text \<open>
  Strings are lists of code units below 256. White space is what \<open>trim\<close> strips there
  (tab, line feed, vertical tab, form feed, carriage return, space, no-break space);
  \<open>toLowerCase\<close> maps the capital letters of that range.
\<close>

definition isWhiteSpace :: "char \<Rightarrow> bool" where
  "isWhiteSpace c = (of_char c \<in> {9, 10, 11, 12, 13, 32, 160 :: nat})"

definition trimStart :: "string \<Rightarrow> string" where
  "trimStart s = dropWhile isWhiteSpace s"

definition trim :: "string \<Rightarrow> string" where
  "trim s = rev (dropWhile isWhiteSpace (rev (dropWhile isWhiteSpace s)))"

definition lowerChar :: "char \<Rightarrow> char" where
  "lowerChar c =
     (let n = (of_char c :: nat)
      in if (65 \<le> n \<and> n \<le> 90) \<or> (192 \<le> n \<and> n \<le> 222 \<and> n \<noteq> 215)
         then char_of (n + 32) else c)"

definition toLowerCase :: "string \<Rightarrow> string" where
  "toLowerCase s = map lowerChar s"

definition startsWith :: "string \<Rightarrow> string \<Rightarrow> bool" where
  "startsWith s p = (take (length p) s = p)"

fun str_includes :: "string \<Rightarrow> string \<Rightarrow> bool" where
  "str_includes [] sub = (sub = [])"
| "str_includes (c # cs) sub = (startsWith (c # cs) sub \<or> str_includes cs sub)"

text \<open>\<open>join\<close> on strings that are already converted.\<close>

fun joinWith :: "string \<Rightarrow> string list \<Rightarrow> string" where
  "joinWith sep [] = []"
| "joinWith sep [x] = x"
| "joinWith sep (x # y # ys) = x @ sep @ joinWith sep (y # ys)"

definition digit_char :: "nat \<Rightarrow> char" where
  "digit_char d = ''0123456789'' ! (d mod 10)"

function show_nat :: "nat \<Rightarrow> string" where
  "show_nat n = (if n < 10 then [digit_char n] else show_nat (n div 10) @ [digit_char (n mod 10)])"
  by pat_completeness auto
termination
  by (relation "measure id") auto

declare show_nat.simps [simp del]

text \<open>
  The values a JSON body can hold, and \<open>undefined\<close>. An object is the list of its own
  properties in insertion order; a lookup takes the first binding of a key.
\<close>

datatype jsval =
    JUndefined
  | JNull
  | JBool bool
  | JNum jsnum
  | JStr string
  | JArr "jsval list"
  | JObj "(string \<times> jsval) list"

fun typeof :: "jsval \<Rightarrow> string" where
  "typeof JUndefined = ''undefined''"
| "typeof JNull = ''object''"
| "typeof (JBool _) = ''boolean''"
| "typeof (JNum _) = ''number''"
| "typeof (JStr _) = ''string''"
| "typeof (JArr _) = ''object''"
| "typeof (JObj _) = ''object''"

fun isArray :: "jsval \<Rightarrow> bool" where
  "isArray (JArr _) = True"
| "isArray _ = False"

text \<open>\<open>falsy v\<close> is \<open>!v\<close>: every object and array is truthy.\<close>

fun falsy :: "jsval \<Rightarrow> bool" where
  "falsy JUndefined = True"
| "falsy JNull = True"
| "falsy (JBool b) = (\<not> b)"
| "falsy (JNum n) =
     (case n of NaN \<Rightarrow> True | NegZero \<Rightarrow> True | Dec m e \<Rightarrow> m = 0 | _ \<Rightarrow> False)"
| "falsy (JStr s) = (s = [])"
| "falsy (JArr _) = False"
| "falsy (JObj _) = False"

section \<open>Conversions between values, strings and numbers\<close>

text \<open>
  What can be thrown: a \<open>TypeError\<close> or a plain \<open>Error\<close> with its message, and the
  errors of an HTTP client, which carry a \<open>status\<close> or a \<open>code\<close> beside the message.
\<close>

datatype js_error =
    TypeError string
  | Error string
  | StatusError nat string
  | CodedError string string

text \<open>
  \<open>Number.prototype.toString\<close> prints the shortest decimal that reads back as the same
  double, and the nearest one among the shortest. \<open>posToString m e\<close> lays out the decimal
  \<open>m * 10 ^ e\<close>: with \<open>k\<close> digits \<open>ds\<close> of the mantissa and \<open>n = k + e\<close> the position of
  the decimal point, the four layouts of the language: digits padded with zeros, digits
  with a point inside, \<open>0.\<close> followed by zeros and the digits, and the exponent form
  outside \<open>-6 < n \<le> 21\<close>.
\<close>

definition posToString :: "nat \<Rightarrow> int \<Rightarrow> string" where
  "posToString m e =
     (let ds = show_nat m; k = int (length ds); n = k + e
      in if k \<le> n \<and> n \<le> 21 then ds @ replicate (nat (n - k)) (CHR ''0'')
         else if 0 < n \<and> n \<le> 21 then take (nat n) ds @ ''.'' @ drop (nat n) ds
         else if - 6 < n \<and> n \<le> 0 then ''0.'' @ replicate (nat (- n)) (CHR ''0'') @ ds
         else
           let ex = n - 1;
               expo = (if ex < 0 then ''-'' else ''+'') @ show_nat (nat \<bar>ex\<bar>)
           in if k = 1 then ds @ ''e'' @ expo
              else [hd ds] @ ''.'' @ tl ds @ ''e'' @ expo)"

text \<open>
  The search for the shortest decimal of the double \<open>M * 10 ^ e\<close>, from one digit
  upwards: \<open>shortestSearch M e j\<close> drops the last \<open>j\<close> digits of \<open>M\<close> and tries the
  decimal below and the one above (any other decimal of that length lies farther from
  the double, beyond one of the two); of two that read back as the double, the nearer
  one is taken, and the even one of two that are as near. When no shorter decimal reads
  back, the digits of \<open>M\<close> themselves are printed.
\<close>

fun shortestSearch :: "nat \<Rightarrow> int \<Rightarrow> nat \<Rightarrow> (nat \<times> int) option" where
  "shortestSearch M e 0 = None"
| "shortestSearch M e (Suc j) =
     (let p = 10 ^ Suc j;
          lo = M div p;
          hi = lo + 1;
          q = e + int (Suc j);
          okLo = (roundDec False lo q = Dec (int M) e);
          okHi = (roundDec False hi q = Dec (int M) e)
      in if okLo \<and> okHi then
           Some (if 2 * (M mod p) < p \<or> (2 * (M mod p) = p \<and> even lo) then (lo, q)
                 else (hi, q))
         else if okLo then Some (lo, q)
         else if okHi then Some (hi, q)
         else shortestSearch M e j)"

definition shortest :: "nat \<Rightarrow> int \<Rightarrow> nat \<times> int" where
  "shortest M e =
     (case shortestSearch M e (length (show_nat M) - 1) of
        None \<Rightarrow> (M, e)
      | Some (s, q) \<Rightarrow> (case norm10 (int s) q of (s', q') \<Rightarrow> (nat s', q')))"

definition numToString :: "jsnum \<Rightarrow> string" where
  "numToString x =
     (case x of
        NaN \<Rightarrow> ''NaN''
      | PosInf \<Rightarrow> ''Infinity''
      | NegInf \<Rightarrow> ''-Infinity''
      | NegZero \<Rightarrow> ''0''
      | Dec m e \<Rightarrow>
          (case norm10 m e of (m', e') \<Rightarrow>
             if m' = 0 then ''0''
             else
               (case shortest (nat \<bar>m'\<bar>) e' of
                  (s, q) \<Rightarrow> if m' < 0 then ''-'' @ posToString s q else posToString s q)))"

text \<open>
  The abstract operation \<open>ToString\<close>. An array joins its elements with commas, \<open>null\<close>
  and \<open>undefined\<close> elements giving the empty string. A plain object gives
  \<open>[object Object]\<close>; one with an own property \<open>toString\<close> hides the inherited method
  behind a value that cannot be called (no value here is a function), and the conversion
  throws a \<open>TypeError\<close>.
\<close>

fun jsToString :: "jsval \<Rightarrow> js_error + string"
  and elemStrings :: "jsval list \<Rightarrow> js_error + string list" where
  "jsToString JUndefined = Inr ''undefined''"
| "jsToString JNull = Inr ''null''"
| "jsToString (JBool b) = Inr (if b then ''true'' else ''false'')"
| "jsToString (JNum n) = Inr (numToString n)"
| "jsToString (JStr s) = Inr s"
| "jsToString (JArr xs) =
     (case elemStrings xs of Inl err \<Rightarrow> Inl err | Inr ss \<Rightarrow> Inr (joinWith '','' ss))"
| "jsToString (JObj kvs) =
     (if ''toString'' \<in> set (map fst kvs)
      then Inl (TypeError ''Cannot convert object to primitive value'')
      else Inr ''[object Object]'')"
| "elemStrings [] = Inr []"
| "elemStrings (x # xs) =
     (case (if x = JNull \<or> x = JUndefined then Inr [] else jsToString x) of
        Inl err \<Rightarrow> Inl err
      | Inr s \<Rightarrow> (case elemStrings xs of Inl err \<Rightarrow> Inl err | Inr ss \<Rightarrow> Inr (s # ss)))"

text \<open>
  \<open>parseInt\<close> on a string. The radix 0 stands for a missing radix: base 10, or base 16
  after a \<open>0x\<close> prefix. The result is the double nearest to the integer read (the
  reading is correctly rounded, as V8 does it), with its sign: \<open>-0\<close> for \<open>-0\<close>, an infinity
  beyond the range of doubles.
\<close>

definition digitVal :: "char \<Rightarrow> nat option" where
  "digitVal c =
     (let n = (of_char c :: nat)
      in if 48 \<le> n \<and> n \<le> 57 then Some (n - 48)
         else if 97 \<le> n \<and> n \<le> 122 then Some (n - 87)
         else if 65 \<le> n \<and> n \<le> 90 then Some (n - 55)
         else None)"

definition isRadixDigit :: "nat \<Rightarrow> char \<Rightarrow> bool" where
  "isRadixDigit R c = (case digitVal c of None \<Rightarrow> False | Some d \<Rightarrow> d < R)"

definition radixValue :: "nat \<Rightarrow> string \<Rightarrow> nat" where
  "radixValue R z = foldl (\<lambda>a c. a * R + (case digitVal c of None \<Rightarrow> 0 | Some d \<Rightarrow> d)) 0 z"

definition parseIntStr :: "string \<Rightarrow> nat \<Rightarrow> jsnum" where
  "parseIntStr inputString radix =
     (let S = trimStart inputString;
          negative = startsWith S ''-'';
          S = (if startsWith S ''+'' \<or> startsWith S ''-'' then drop 1 S else S)
      in if radix \<noteq> 0 \<and> (radix < 2 \<or> 36 < radix) then NaN
         else
           let hex = ((radix = 0 \<or> radix = 16) \<and> (startsWith S ''0x'' \<or> startsWith S ''0X''));
               S = (if hex then drop 2 S else S);
               R = (if hex then 16 else if radix = 0 then 10 else radix);
               Z = takeWhile (isRadixDigit R) S
           in if Z = [] then NaN else roundDec negative (radixValue R Z) 0)"

definition parseInt :: "jsval \<Rightarrow> nat \<Rightarrow> js_error + jsnum" where
  "parseInt v radix =
     (case jsToString v of Inl err \<Rightarrow> Inl err | Inr s \<Rightarrow> Inr (parseIntStr s radix))"

definition isNaN :: "jsnum \<Rightarrow> bool" where
  "isNaN x = (x = NaN)"

text \<open>
  \<open>parseFloat\<close> on a string reads the longest prefix that is a decimal literal: an
  optional sign, then \<open>Infinity\<close>, or digits with an optional fraction and an optional
  exponent. An exponent mark with no digit after it is not part of the literal. The
  result is the double nearest to the decimal read.
\<close>

definition isDigit :: "char \<Rightarrow> bool" where
  "isDigit c = isRadixDigit 10 c"

definition parseExponent :: "string \<Rightarrow> int" where
  "parseExponent r =
     (if startsWith r ''e'' \<or> startsWith r ''E'' then
        let r = drop 1 r;
            esign = (if startsWith r ''-'' then - 1 else 1 :: int);
            r = (if startsWith r ''+'' \<or> startsWith r ''-'' then drop 1 r else r);
            expDigits = takeWhile isDigit r
        in if expDigits = [] then 0 else esign * int (radixValue 10 expDigits)
      else 0)"

definition parseFloatStr :: "string \<Rightarrow> jsnum" where
  "parseFloatStr inputString =
     (let S = trimStart inputString;
          negative = startsWith S ''-'';
          S = (if startsWith S ''+'' \<or> startsWith S ''-'' then drop 1 S else S)
      in if startsWith S ''Infinity'' then (if negative then NegInf else PosInf)
         else
           let intDigits = takeWhile isDigit S;
               r = dropWhile isDigit S;
               fracDigits = (if startsWith r ''.'' then takeWhile isDigit (drop 1 r) else []);
               r = (if startsWith r ''.'' then dropWhile isDigit (drop 1 r) else r)
           in if intDigits = [] \<and> fracDigits = [] then NaN
              else
                roundDec negative (radixValue 10 (intDigits @ fracDigits))
                  (parseExponent r - int (length fracDigits)))"

definition parseFloat :: "jsval \<Rightarrow> js_error + jsnum" where
  "parseFloat v =
     (case jsToString v of Inl err \<Rightarrow> Inl err | Inr s \<Rightarrow> Inr (parseFloatStr s))"

text \<open>
  The method call \<open>v.toString()\<close>: as \<open>ToString\<close>, but \<open>null\<close> and \<open>undefined\<close> have no
  properties to read.
\<close>

definition callToString :: "jsval \<Rightarrow> js_error + string" where
  "callToString v =
     (if v = JNull then Inl (TypeError ''Cannot read properties of null (reading 'toString')'')
      else if v = JUndefined
        then Inl (TypeError ''Cannot read properties of undefined (reading 'toString')'')
      else jsToString v)"

text \<open>
  Properties. The program reads and tests named keys only, none of them an array index
  or a property inherited from a prototype: an array has \<open>length\<close> and nothing else
  under such keys.
\<close>

fun getProp :: "jsval \<Rightarrow> string \<Rightarrow> jsval" where
  "getProp (JObj kvs) k = (case map_of kvs k of None \<Rightarrow> JUndefined | Some v \<Rightarrow> v)"
| "getProp (JArr xs) k = (if k = ''length'' then JNum (num_of_int (int (length xs))) else JUndefined)"
| "getProp _ k = JUndefined"

fun hasProp :: "jsval \<Rightarrow> string \<Rightarrow> bool" where
  "hasProp (JObj kvs) k = (k \<in> set (map fst kvs))"
| "hasProp (JArr xs) k = (k = ''length'')"
| "hasProp _ k = False"

text \<open>Assignment to a property of an object under construction, and the values read back.\<close>

fun setProp :: "(string \<times> jsval) list \<Rightarrow> string \<Rightarrow> jsval \<Rightarrow> (string \<times> jsval) list" where
  "setProp [] k v = [(k, v)]"
| "setProp ((k', v') # kvs) k v =
     (if k' = k then (k', v) # kvs else (k', v') # setProp kvs k v)"

fun strOf :: "jsval \<Rightarrow> string" where
  "strOf (JStr s) = s"
| "strOf _ = []"

fun numOf :: "jsval \<Rightarrow> jsnum" where
  "numOf (JNum n) = n"
| "numOf _ = NaN"

text \<open>
  Arithmetic inside a function is done on extended reals: the value of a number, or one
  of \<open>NaN\<close> and the infinities. \<open>Math.round\<close> brings the result back to a number.
\<close>

datatype xnum = XNaN | XPosInf | XNegInf | XFin real

definition toX :: "jsnum \<Rightarrow> xnum" where
  "toX x =
     (case x of NaN \<Rightarrow> XNaN | PosInf \<Rightarrow> XPosInf | NegInf \<Rightarrow> XNegInf
      | NegZero \<Rightarrow> XFin 0
      | Dec m e \<Rightarrow> XFin (of_rat (dec_val m e)))"

text \<open>Product and quotient of an extended real with a finite constant.\<close>

definition x_times :: "xnum \<Rightarrow> real \<Rightarrow> xnum" where
  "x_times x c =
     (case x of
        XNaN \<Rightarrow> XNaN
      | XFin r \<Rightarrow> XFin (r * c)
      | XPosInf \<Rightarrow> if c = 0 then XNaN else if 0 < c then XPosInf else XNegInf
      | XNegInf \<Rightarrow> if c = 0 then XNaN else if 0 < c then XNegInf else XPosInf)"

definition x_over :: "xnum \<Rightarrow> real \<Rightarrow> xnum" where
  "x_over x c =
     (case x of
        XNaN \<Rightarrow> XNaN
      | XFin r \<Rightarrow>
          if c = 0 then (if r = 0 then XNaN else if 0 < r then XPosInf else XNegInf)
          else XFin (r / c)
      | XPosInf \<Rightarrow> if 0 \<le> c then XPosInf else XNegInf
      | XNegInf \<Rightarrow> if 0 \<le> c then XNegInf else XPosInf)"

definition Math_sqrt :: "xnum \<Rightarrow> xnum" where
  "Math_sqrt x =
     (case x of
        XNaN \<Rightarrow> XNaN
      | XFin r \<Rightarrow> if r < 0 then XNaN else XFin (sqrt r)
      | XPosInf \<Rightarrow> XPosInf
      | XNegInf \<Rightarrow> XNaN)"

definition Math_round :: "xnum \<Rightarrow> jsnum" where
  "Math_round x =
     (case x of
        XNaN \<Rightarrow> NaN
      | XFin r \<Rightarrow> num_of_int \<lfloor>r + 1 / 2\<rfloor>
      | XPosInf \<Rightarrow> PosInf
      | XNegInf \<Rightarrow> NegInf)"

section \<open>profile-processor.js: profile validation\<close>

record field_rule =
  key :: string
  ftype :: string
  minLength :: "nat option"
  fmin :: "jsnum option"
  fmax :: "jsnum option"
  isArr :: bool
  allowed :: "string list option"

definition requiredFields :: "field_rule list" where
  "requiredFields =
     [\<lparr>key = ''name'', ftype = ''string'', minLength = Some 1, fmin = None, fmax = None,
       isArr = False, allowed = None\<rparr>,
      \<lparr>key = ''age'', ftype = ''number'', minLength = None, fmin = Some (num_of_int 13),
       fmax = Some (num_of_int 120), isArr = False, allowed = None\<rparr>,
      \<lparr>key = ''skinType'', ftype = ''string'', minLength = None, fmin = None, fmax = None,
       isArr = False,
       allowed = Some [''dry'', ''oily'', ''combination'', ''normal'', ''sensitive'']\<rparr>,
      \<lparr>key = ''concerns'', ftype = ''object'', minLength = None, fmin = None, fmax = None,
       isArr = True,
       allowed = Some [''acne'', ''wrinkles'', ''redness'', ''dryness'', ''dark spots'',
                       ''sensitivity'']\<rparr>,
      \<lparr>key = ''location'', ftype = ''string'', minLength = Some 2, fmin = None, fmax = None,
       isArr = False, allowed = None\<rparr>]"

text \<open>
  The five \<open>if\<close> statements of the loop body, each as the list of messages it pushes.
  \<open>allowed.includes v\<close> holds of the strings of the list only.
\<close>

definition stringTypeCheck :: "field_rule \<Rightarrow> jsval \<Rightarrow> string list" where
  "stringTypeCheck field v =
     (if ftype field = ''string'' \<and> typeof v \<noteq> ''string''
      then [''Field '' @ key field @ '' must be a string.''] else [])"

definition numberCheck :: "field_rule \<Rightarrow> jsval \<Rightarrow> string list" where
  "numberCheck field v =
     (if ftype field = ''number'' then
        (if typeof v \<noteq> ''number'' \<or> isNaN (numOf v) then
           [''Field '' @ key field @ '' must be a number.'']
         else
           (case fmin field of
              None \<Rightarrow> []
            | Some lo \<Rightarrow>
                if num_lt (numOf v) lo
                then [''Field '' @ key field @ '' must be at least '' @ numToString lo @ ''.'']
                else [])
           @ (case fmax field of
                None \<Rightarrow> []
              | Some hi \<Rightarrow>
                  if num_gt (numOf v) hi
                  then [''Field '' @ key field @ '' must be at most '' @ numToString hi @ ''.'']
                  else []))
      else [])"

definition arrayCheck :: "field_rule \<Rightarrow> jsval \<Rightarrow> js_error + string list" where
  "arrayCheck field v =
     (if ftype field = ''object'' \<and> isArr field then
        (case v of
           JArr xs \<Rightarrow>
             (case allowed field of
                None \<Rightarrow> Inr []
              | Some al \<Rightarrow>
                  let invalid = filter (\<lambda>x. x \<notin> set (map JStr al)) xs
                  in if length invalid > 0 then
                       (case elemStrings invalid of
                          Inl err \<Rightarrow> Inl err
                        | Inr ss \<Rightarrow>
                            Inr [''Field '' @ key field @ '' contains invalid values: '' @
                                 joinWith '', '' ss @ ''.''])
                     else Inr [])
         | _ \<Rightarrow> Inr [''Field '' @ key field @ '' must be an array.''])
      else Inr [])"

definition allowedCheck :: "field_rule \<Rightarrow> jsval \<Rightarrow> string list" where
  "allowedCheck field v =
     (case allowed field of
        None \<Rightarrow> []
      | Some al \<Rightarrow>
          if ftype field = ''string'' \<and> v \<notin> set (map JStr al)
          then [''Field '' @ key field @ '' must be one of: '' @ joinWith '', '' al @ ''.'']
          else [])"

definition minLengthCheck :: "field_rule \<Rightarrow> jsval \<Rightarrow> string list" where
  "minLengthCheck field v =
     (case minLength field of
        None \<Rightarrow> []
      | Some n \<Rightarrow>
          if 0 < n \<and> typeof v = ''string'' \<and> length (strOf v) < n
          then [''Field '' @ key field @ '' must be at least '' @ show_nat n @ '' characters.'']
          else [])"

text \<open>
  One turn of the loop: the messages pushed for a field. A missing, \<open>null\<close> or blank
  value gives the one message and skips the rest (\<open>continue\<close>). Joining the invalid
  elements of an array can throw, which leaves the function.
\<close>

definition checkField :: "field_rule \<Rightarrow> jsval \<Rightarrow> js_error + string list" where
  "checkField field v =
     (if v = JUndefined \<or> v = JNull \<or> (typeof v = ''string'' \<and> trim (strOf v) = [])
      then Inr [''Missing required field: '' @ key field]
      else
        (case arrayCheck field v of
           Inl err \<Rightarrow> Inl err
         | Inr arrayErrors \<Rightarrow>
             Inr (stringTypeCheck field v @ numberCheck field v @ arrayErrors
                  @ allowedCheck field v @ minLengthCheck field v)))"

fun validateFields :: "field_rule list \<Rightarrow> jsval \<Rightarrow> string list \<Rightarrow> js_error + string list" where
  "validateFields [] profileData errors = Inr errors"
| "validateFields (field # rest) profileData errors =
     (case checkField field (getProp profileData (key field)) of
        Inl err \<Rightarrow> Inl err
      | Inr pushed \<Rightarrow> validateFields rest profileData (errors @ pushed))"

text \<open>The function returns \<open>true\<close> or an object with \<open>valid: false\<close> and the messages.\<close>

datatype profile_validation = Valid | Invalid "string list"

definition validateProfileData :: "jsval \<Rightarrow> js_error + profile_validation" where
  "validateProfileData profileData =
     (if falsy profileData \<or> typeof profileData \<noteq> ''object''
      then Inr (Invalid [''Profile data must be an object.''])
      else
        (case validateFields requiredFields profileData [] of
           Inl err \<Rightarrow> Inl err
         | Inr errors \<Rightarrow> if length errors > 0 then Inr (Invalid errors) else Inr Valid))"

section \<open>profile-processor.js: questionnaire answers\<close>

text \<open>
  The blocks of \<open>processQuestionnaireAnswers\<close>, each taking the object \<open>processed\<close> built
  so far. The block for \<open>hydration\<close> and the one for \<open>stressLevel\<close> are the same code
  under two keys.
\<close>

definition intAnswer ::
  "string \<Rightarrow> jsval \<Rightarrow> (string \<times> jsval) list \<Rightarrow> js_error + (string \<times> jsval) list" where
  "intAnswer k answers processed =
     (if hasProp answers k then
        (case parseInt (getProp answers k) 10 of
           Inl err \<Rightarrow> Inl err
         | Inr n \<Rightarrow>
             let processed = setProp processed k (JNum n)
             in Inr (if isNaN n then setProp processed k JNull else processed))
      else Inr processed)"

definition sunExposureAnswer ::
  "jsval \<Rightarrow> (string \<times> jsval) list \<Rightarrow> js_error + (string \<times> jsval) list" where
  "sunExposureAnswer answers processed =
     (if hasProp answers ''sunExposure'' then
        (case callToString (getProp answers ''sunExposure'') of
           Inl err \<Rightarrow> Inl err
         | Inr s \<Rightarrow> Inr (setProp processed ''sunExposure'' (JStr (toLowerCase s))))
      else Inr processed)"

definition sleepHoursAnswer ::
  "jsval \<Rightarrow> (string \<times> jsval) list \<Rightarrow> js_error + (string \<times> jsval) list" where
  "sleepHoursAnswer answers processed =
     (if hasProp answers ''sleepHours'' then
        (case parseFloat (getProp answers ''sleepHours'') of
           Inl err \<Rightarrow> Inl err
         | Inr n \<Rightarrow>
             let processed = setProp processed ''sleepHours'' (JNum n)
             in Inr (if isNaN n then setProp processed ''sleepHours'' JNull else processed))
      else Inr processed)"

text \<open>The final loop deleting the keys whose value is \<open>null\<close> or \<open>undefined\<close>.\<close>

definition removeNulls :: "(string \<times> jsval) list \<Rightarrow> (string \<times> jsval) list" where
  "removeNulls processed = filter (\<lambda>(k, v). v \<noteq> JNull \<and> v \<noteq> JUndefined) processed"

definition processQuestionnaireAnswers :: "jsval \<Rightarrow> js_error + jsval" where
  "processQuestionnaireAnswers answers =
     (if falsy answers \<or> typeof answers \<noteq> ''object''
      then Inr (JObj [(''error'', JStr ''Answers must be an object.'')])
      else
        (case intAnswer ''hydration'' answers [] of
           Inl err \<Rightarrow> Inl err
         | Inr processed \<Rightarrow>
        (case sunExposureAnswer answers processed of
           Inl err \<Rightarrow> Inl err
         | Inr processed \<Rightarrow>
        (case sleepHoursAnswer answers processed of
           Inl err \<Rightarrow> Inl err
         | Inr processed \<Rightarrow>
        (case intAnswer ''stressLevel'' answers processed of
           Inl err \<Rightarrow> Inl err
         | Inr processed \<Rightarrow> Inr (JObj (removeNulls processed)))))))"

section \<open>photo-analyzer.js: URL validation\<close>

record validated_photo =
  originalUrl :: string
  index :: nat
  vformat :: string

record url_error =
  ue_index :: nat
  ue_error :: string
  ue_message :: string

text \<open>The three shapes of result share one record; an absent key is \<open>None\<close>.\<close>

record validation_result =
  vr_success :: bool
  vr_error :: "string option"
  vr_validatedUrls :: "validated_photo list option"
  vr_errors :: "url_error list option"
  vr_message :: string

definition detectImageFormat :: "string \<Rightarrow> string" where
  "detectImageFormat u =
     (let urlLowerCase = toLowerCase u
      in if str_includes urlLowerCase ''.png'' then ''PNG''
         else if str_includes urlLowerCase ''.webp'' then ''WebP''
         else if str_includes urlLowerCase ''.jpeg'' then ''JPEG''
         else if str_includes urlLowerCase ''.jpg'' then ''JPEG''
         else ''UNKNOWN'')"

text \<open>
  The body of the \<open>forEach\<close> callback for one element: either the validated entry or the
  error pushed. \<open>isURL\<close> is \<open>validator.isURL\<close> under the options of the source, a
  library function taken as a parameter.
\<close>

definition validateUrl :: "(string \<Rightarrow> bool) \<Rightarrow> jsval \<Rightarrow> nat \<Rightarrow> url_error + validated_photo" where
  "validateUrl isURL u i =
     (case u of
        JStr s \<Rightarrow>
          if length (trim s) = 0 then
            Inl \<lparr>ue_index = i, ue_error = ''INVALID_URL_FORMAT'',
                 ue_message = ''Photo '' @ show_nat (i + 1) @ '': URL must be a non-empty string''\<rparr>
          else
            let trimmedUrl = trim s
            in if \<not> isURL trimmedUrl then
                 Inl \<lparr>ue_index = i, ue_error = ''MALFORMED_URL'',
                      ue_message = ''Photo '' @ show_nat (i + 1) @ '': URL format is invalid''\<rparr>
               else
                 let supportedFormats = [''.jpg'', ''.jpeg'', ''.png'', ''.webp''];
                     urlLowerCase = toLowerCase trimmedUrl;
                     hasValidExtension = list_ex (\<lambda>f. str_includes urlLowerCase f) supportedFormats
                 in if \<not> hasValidExtension then
                      Inl \<lparr>ue_index = i, ue_error = ''UNSUPPORTED_FORMAT'',
                           ue_message = ''Photo '' @ show_nat (i + 1) @
                             '': Must be JPG, JPEG, PNG, or WebP format''\<rparr>
                    else
                      Inr \<lparr>originalUrl = trimmedUrl, index = i,
                           vformat = detectImageFormat trimmedUrl\<rparr>
      | _ \<Rightarrow>
          Inl \<lparr>ue_index = i, ue_error = ''INVALID_URL_FORMAT'',
               ue_message = ''Photo '' @ show_nat (i + 1) @ '': URL must be a non-empty string''\<rparr>)"

text \<open>The \<open>forEach\<close> loop, with the two arrays it pushes to.\<close>

fun validateEach ::
  "(string \<Rightarrow> bool) \<Rightarrow> jsval list \<Rightarrow> nat \<Rightarrow> validated_photo list \<times> url_error list
     \<Rightarrow> validated_photo list \<times> url_error list" where
  "validateEach isURL [] i acc = acc"
| "validateEach isURL (u # us) i (validatedUrls, errors) =
     (case validateUrl isURL u i of
        Inl e \<Rightarrow> validateEach isURL us (i + 1) (validatedUrls, errors @ [e])
      | Inr v \<Rightarrow> validateEach isURL us (i + 1) (validatedUrls @ [v], errors))"

definition validatePhotoUrls :: "(string \<Rightarrow> bool) \<Rightarrow> jsval \<Rightarrow> validation_result" where
  "validatePhotoUrls isURL photoUrls =
     (case photoUrls of
        JArr urls \<Rightarrow>
          if length urls = 0 then
            \<lparr>vr_success = False, vr_error = Some ''EMPTY_ARRAY'', vr_validatedUrls = None,
             vr_errors = None, vr_message = ''At least one photo URL must be provided''\<rparr>
          else if length urls > 5 then
            \<lparr>vr_success = False, vr_error = Some ''TOO_MANY_PHOTOS'', vr_validatedUrls = None,
             vr_errors = None, vr_message = ''Maximum of 5 photos allowed per analysis''\<rparr>
          else
            (case validateEach isURL urls 0 ([], []) of
               (validatedUrls, errors) \<Rightarrow>
                 if length errors > 0 then
                   \<lparr>vr_success = False, vr_error = Some ''VALIDATION_FAILED'',
                    vr_validatedUrls = Some validatedUrls, vr_errors = Some errors,
                    vr_message = show_nat (length errors) @ '' of '' @ show_nat (length urls) @
                      '' photos failed validation''\<rparr>
                 else
                   \<lparr>vr_success = True, vr_error = None,
                    vr_validatedUrls = Some validatedUrls, vr_errors = None,
                    vr_message = ''All '' @ show_nat (length urls) @
                      '' photos validated successfully''\<rparr>)
      | _ \<Rightarrow>
          \<lparr>vr_success = False, vr_error = Some ''INVALID_INPUT'', vr_validatedUrls = None,
           vr_errors = None, vr_message = ''Photo URLs must be provided as an array''\<rparr>)"

section \<open>photo-analyzer.js: quality assessment\<close>

record dimensions =
  width :: jsnum
  height :: jsnum
  aspectRatio :: string
  estimated :: bool

text \<open>
  The metadata object of \<open>extractPhotoMetadata\<close>. Its \<open>timestamp\<close> is the wall clock
  and is left out. \<open>dimensions\<close> is \<open>null\<close> (here \<open>None\<close>) until it is estimated.
\<close>

record metadata =
  url :: string
  contentType :: string
  fileSize :: jsnum
  lastModified :: "string option"
  format :: string
  dims :: "dimensions option"

record quality =
  score :: int
  issues :: "string list"
  suitable :: bool

text \<open>
  \<open>assessImageQuality\<close> mutates one \<open>quality\<close> object through three checks (file
  size, dimensions, format), each adding to the running score and pushing its issue
  note. \<open>qualityChecks\<close> is the object after the three checks, where the comment
  "Determine overall suitability" stands in the source.
\<close>

definition checkFileSize :: "'a metadata_scheme \<Rightarrow> quality \<Rightarrow> quality" where
  "checkFileSize metadata quality =
     (if num_lt (fileSize metadata) (Dec 1 5) then
        quality\<lparr>issues := issues quality @ [''File size may be too small for detailed analysis''],
                score := score quality - 10\<rparr>
      else if num_gt (fileSize metadata) (Dec 5 6) then
        quality\<lparr>issues := issues quality @ [''File size is very large, may affect processing speed''],
                score := score quality - 5\<rparr>
      else quality\<lparr>score := score quality + 20\<rparr>)"

definition checkDimensions :: "'a metadata_scheme \<Rightarrow> quality \<Rightarrow> quality" where
  "checkDimensions metadata quality =
     (case dims metadata of
        None \<Rightarrow> quality
      | Some d \<Rightarrow>
          if num_lt (width d) (Dec 3 2) \<or> num_lt (height d) (Dec 3 2) then
            quality\<lparr>issues := issues quality @ [''Image resolution may be too low for accurate analysis''],
                    score := score quality - 15\<rparr>
          else if num_ge (width d) (Dec 8 2) \<and> num_ge (height d) (Dec 6 2) then
            quality\<lparr>score := score quality + 25\<rparr>
          else quality\<lparr>score := score quality + 15\<rparr>)"

definition checkImageFormat :: "'a metadata_scheme \<Rightarrow> quality \<Rightarrow> quality" where
  "checkImageFormat metadata quality =
     (if format metadata = ''JPEG'' \<or> format metadata = ''PNG'' then
        quality\<lparr>score := score quality + 10\<rparr>
      else if format metadata = ''WebP'' then
        quality\<lparr>score := score quality + 5\<rparr>
      else
        quality\<lparr>issues := issues quality @ [''Image format may not be optimal for analysis''],
                score := score quality - 10\<rparr>)"

definition qualityChecks :: "'a metadata_scheme \<Rightarrow> quality" where
  "qualityChecks metadata =
    (let quality = \<lparr>score = 0, issues = [], suitable = False\<rparr>;
         quality = checkFileSize metadata quality;
         quality = checkDimensions metadata quality;
         quality = checkImageFormat metadata quality
     in quality)"

definition assessImageQuality :: "'a metadata_scheme \<Rightarrow> quality" where
  "assessImageQuality metadata =
    (let quality = qualityChecks metadata;
         quality = quality\<lparr>suitable := (30 \<le> score quality \<and> length (issues quality) < 3)\<rparr>;
         quality = quality\<lparr>score := max 0 (min 100 (score quality + 50))\<rparr>
     in quality)"

section \<open>photo-analyzer.js: accessibility probe and metadata\<close>

text \<open>The \<open>switch\<close> of \<open>estimateDimensions\<close> over its default of 10.\<close>

definition compressionRatio :: "string \<Rightarrow> real" where
  "compressionRatio fmt =
     (if fmt = ''PNG'' then 6
      else if fmt = ''WebP'' then 12
      else if fmt = ''JPEG'' then 10
      else 10)"

definition estimateDimensions :: "jsnum \<Rightarrow> string \<Rightarrow> dimensions" where
  "estimateDimensions fsize fmt =
     (let estimatedPixels = x_over (x_times (toX fsize) (compressionRatio fmt)) 3;
          estimatedSide = Math_sqrt estimatedPixels
      in \<lparr>width = Math_round estimatedSide, height = Math_round estimatedSide,
          aspectRatio = ''1.00'', estimated = True\<rparr>)"

text \<open>
  What the HEAD request of \<open>axios\<close> comes to: a timeout (\<open>ECONNABORTED\<close>), a response
  outside the 2xx range (status and status text), another failure (its message), or a
  response with its headers.
\<close>

datatype head_outcome =
    Aborted
  | BadStatus nat string
  | Failed string
  | Response "(string \<times> string) list"

datatype accessibility =
    Accessible string jsnum "string option" "string option"
  | NotAccessible string "nat option" string

fun accessible :: "accessibility \<Rightarrow> bool" where
  "accessible (Accessible _ _ _ _) = True"
| "accessible (NotAccessible _ _ _) = False"

text \<open>
  \<open>verifyPhotoAccessibility\<close> on the outcome of its request. The errors it throws on a
  bad content type or size are caught by its own handler, where they carry neither a
  code nor a response and so come out as \<open>NETWORK_ERROR\<close>.
\<close>

definition verifyPhotoAccessibility :: "head_outcome \<Rightarrow> accessibility" where
  "verifyPhotoAccessibility outcome =
     (case outcome of
        Aborted \<Rightarrow> NotAccessible ''TIMEOUT'' None ''Photo accessibility check timed out''
      | BadStatus status statusText \<Rightarrow>
          NotAccessible ''HTTP_ERROR'' (Some status)
            (''HTTP '' @ show_nat status @ '': '' @ statusText)
      | Failed msg \<Rightarrow> NotAccessible ''NETWORK_ERROR'' None msg
      | Response headers \<Rightarrow>
          (case map_of headers ''content-type'' of
             None \<Rightarrow> NotAccessible ''NETWORK_ERROR'' None ''Invalid content type: undefined''
           | Some ct \<Rightarrow>
               if ct = [] \<or> \<not> startsWith ct ''image/'' then
                 NotAccessible ''NETWORK_ERROR'' None (''Invalid content type: '' @ ct)
               else
                 let contentLength =
                       parseIntStr
                         (case map_of headers ''content-length'' of
                            None \<Rightarrow> ''0''
                          | Some s \<Rightarrow> if s = [] then ''0'' else s) 0
                 in if contentLength = Dec 0 0 then
                      NotAccessible ''NETWORK_ERROR'' None ''Image file appears to be empty''
                    else if num_lt contentLength (num_of_int 1024)
                            \<or> num_gt contentLength (num_of_int (10 * 1024 * 1024)) then
                      NotAccessible ''NETWORK_ERROR'' None
                        (''Image file size out of range: '' @ numToString contentLength @ '' bytes'')
                    else
                      Accessible ct contentLength (map_of headers ''last-modified'')
                        (map_of headers ''etag'')))"

record photo_metadata = metadata +
  mquality :: quality

record metadata_failure =
  mf_error :: string
  mf_message :: string
  mf_url :: string

definition extractPhotoMetadata :: "head_outcome \<Rightarrow> string \<Rightarrow> metadata_failure + photo_metadata" where
  "extractPhotoMetadata outcome photoUrl =
     (case verifyPhotoAccessibility outcome of
        NotAccessible e st msg \<Rightarrow>
          Inl \<lparr>mf_error = ''METADATA_EXTRACTION_FAILED'',
               mf_message = ''Photo not accessible: '' @ msg, mf_url = photoUrl\<rparr>
      | Accessible ct contentLength lm etag \<Rightarrow>
          let metadata =
                \<lparr>url = photoUrl, contentType = ct, fileSize = contentLength,
                 lastModified = lm, format = detectImageFormat photoUrl, dims = None\<rparr>;
              metadata =
                (if \<not> falsy (JNum contentLength) \<and> \<not> falsy (JStr ct) then
                   metadata\<lparr>dims := Some (estimateDimensions contentLength (format metadata))\<rparr>
                 else metadata)
          in Inr (metadata.extend metadata
                    (photo_metadata.fields (assessImageQuality metadata))))"

section \<open>photo-analyzer.js: formatting for the recommendation engine\<close>

text \<open>
  The \<open>id\<close> of a formatted photo and the \<open>timestamp\<close> of the result read the wall
  clock; they are left out, and nothing else depends on them.
\<close>

record formatted_photo =
  fp_url :: string
  fp_type :: string
  fp_format :: string
  fp_quality :: quality
  fp_dimensions :: "dimensions option"
  fp_fileSize :: jsnum
  fp_contentType :: string
  aiCompatible :: bool
  processingNotes :: "string list"

record processing_error =
  pe_url :: string
  pe_error :: string
  pe_message :: string

record summary =
  totalPhotos :: nat
  processedPhotos :: nat
  failedPhotos :: nat
  aiCompatiblePhotos :: nat
  averageQuality :: jsnum
  recommendedForAnalysis :: nat

record photos_failure =
  pf_error :: string
  pf_message :: string

record photos_result =
  pr_photos :: "formatted_photo list"
  pr_summary :: summary
  pr_processingErrors :: "processing_error list option"
  readyForAI :: bool

text \<open>The body of the loop for one photo, given the outcome of its request.\<close>

definition formatPhoto :: "head_outcome \<Rightarrow> validated_photo \<Rightarrow> processing_error + formatted_photo" where
  "formatPhoto outcome photo =
     (case extractPhotoMetadata outcome (originalUrl photo) of
        Inl failure \<Rightarrow>
          Inl \<lparr>pe_url = originalUrl photo, pe_error = mf_error failure,
               pe_message = mf_message failure\<rparr>
      | Inr md \<Rightarrow>
          let formattedPhoto =
                \<lparr>fp_url = originalUrl photo, fp_type = ''image_url'', fp_format = format md,
                 fp_quality = mquality md, fp_dimensions = dims md, fp_fileSize = fileSize md,
                 fp_contentType = contentType md, aiCompatible = suitable (mquality md),
                 processingNotes = []\<rparr>;
              formattedPhoto =
                (if score (mquality md) < 50 then
                   formattedPhoto\<lparr>processingNotes := processingNotes formattedPhoto @
                     [''Low quality image - analysis may be limited'']\<rparr>
                 else formattedPhoto);
              formattedPhoto =
                (if length (issues (mquality md)) > 0 then
                   formattedPhoto\<lparr>processingNotes := processingNotes formattedPhoto @
                     issues (mquality md)\<rparr>
                 else formattedPhoto)
          in Inr formattedPhoto)"

text \<open>
  The \<open>for\<close> loop over the photos, one request after the other: \<open>axios k u\<close> is the
  outcome of the \<open>k\<close>-th request of the call, sent to \<open>u\<close>.
\<close>

fun formatEach ::
  "(nat \<Rightarrow> string \<Rightarrow> head_outcome) \<Rightarrow> validated_photo list \<Rightarrow> nat
     \<Rightarrow> formatted_photo list \<times> processing_error list
     \<Rightarrow> formatted_photo list \<times> processing_error list" where
  "formatEach axios [] k acc = acc"
| "formatEach axios (photo # rest) k (formattedPhotos, processingErrors) =
     (case formatPhoto (axios k (originalUrl photo)) photo of
        Inl e \<Rightarrow> formatEach axios rest (k + 1) (formattedPhotos, processingErrors @ [e])
      | Inr f \<Rightarrow> formatEach axios rest (k + 1) (formattedPhotos @ [f], processingErrors))"

definition formatPhotosForAI ::
  "(nat \<Rightarrow> string \<Rightarrow> head_outcome) \<Rightarrow> validated_photo list \<Rightarrow> photos_failure + photos_result" where
  "formatPhotosForAI axios validatedPhotos =
     (if length validatedPhotos = 0 then
        Inl \<lparr>pf_error = ''INVALID_INPUT'', pf_message = ''Validated photos array is required''\<rparr>
      else
        (case formatEach axios validatedPhotos 0 ([], []) of
           (formattedPhotos, processingErrors) \<Rightarrow>
             let summary =
                   \<lparr>totalPhotos = length validatedPhotos,
                    processedPhotos = length formattedPhotos,
                    failedPhotos = length processingErrors,
                    aiCompatiblePhotos = length (filter aiCompatible formattedPhotos),
                    averageQuality =
                      (if length formattedPhotos > 0 then
                         Math_round (XFin (real_of_int (sum_list (map (\<lambda>p. score (fp_quality p)) formattedPhotos))
                                           / real (length formattedPhotos)))
                       else num_of_int 0),
                    recommendedForAnalysis =
                      length (filter (\<lambda>p. aiCompatible p \<and> 60 \<le> score (fp_quality p)) formattedPhotos)\<rparr>
             in Inr \<lparr>pr_photos = formattedPhotos, pr_summary = summary,
                     pr_processingErrors =
                       (if length processingErrors > 0 then Some processingErrors else None),
                     readyForAI = (recommendedForAnalysis summary > 0)\<rparr>))"

section \<open>data-validator.js: the request schema\<close>

text \<open>
  The rules of the schema, as the documentation of joi gives them: an object with no
  key beside the three; \<open>userId\<close> a required string of 20 to 28 letters and digits;
  \<open>skinType\<close> required, one of four strings; \<open>concerns\<close> a required array of at most
  5 non-empty strings of at most 50 characters. A body that is \<open>undefined\<close> passes, since
  the object schema itself is not required.
\<close>

definition isAlphanum :: "char \<Rightarrow> bool" where
  "isAlphanum c = (digitVal c \<noteq> None)"

definition userIdRule :: "jsval \<Rightarrow> bool" where
  "userIdRule v =
     (case v of
        JStr s \<Rightarrow> s \<noteq> [] \<and> list_all isAlphanum s \<and> 20 \<le> length s \<and> length s \<le> 28
      | _ \<Rightarrow> False)"

definition skinTypeRule :: "jsval \<Rightarrow> bool" where
  "skinTypeRule v = (v \<in> set (map JStr [''dry'', ''oily'', ''combination'', ''sensitive'']))"

definition concernsRule :: "jsval \<Rightarrow> bool" where
  "concernsRule v =
     (case v of
        JArr xs \<Rightarrow>
          list_all (\<lambda>x. case x of JStr s \<Rightarrow> s \<noteq> [] \<and> length s \<le> 50 | _ \<Rightarrow> False) xs
          \<and> length xs \<le> 5
      | _ \<Rightarrow> False)"

definition schemaAccepts :: "jsval \<Rightarrow> bool" where
  "schemaAccepts data =
     (case data of
        JUndefined \<Rightarrow> True
      | JObj kvs \<Rightarrow>
          list_all (\<lambda>k. k \<in> set [''userId'', ''skinType'', ''concerns'']) (map fst kvs)
          \<and> userIdRule (getProp data ''userId'')
          \<and> skinTypeRule (getProp data ''skinType'')
          \<and> concernsRule (getProp data ''concerns'')
      | _ \<Rightarrow> False)"

text \<open>
  \<open>validateAPIRequest\<close> returns what \<open>schema.validate\<close> returns: an object holding the
  value, and the error when there is one.
\<close>

definition validateAPIRequest :: "jsval \<Rightarrow> jsval" where
  "validateAPIRequest data =
     JObj ((''value'', data) #
           (if schemaAccepts data then []
            else [(''error'', JObj [(''name'', JStr ''ValidationError'')])]))"

section \<open>recommendation-engine.js\<close>

text \<open>
  The prompt is a fixed template with five interpolated strings; the model keeps the
  five. Reading a property of \<open>undefined\<close> or \<open>null\<close> throws, and so does calling
  \<open>join\<close> on anything but an array.
\<close>

record prompt =
  pSkinType :: string
  pConcerns :: string
  pSensitivityLevel :: string
  pAgeGroup :: string
  pSummary :: string

definition readProp :: "jsval \<Rightarrow> string \<Rightarrow> js_error + jsval" where
  "readProp v k =
     (if v = JUndefined \<or> v = JNull
      then Inl (TypeError (''Cannot read properties of '' @ (if v = JNull then ''null'' else ''undefined'')))
      else Inr (getProp v k))"

definition callJoin :: "jsval \<Rightarrow> string \<Rightarrow> js_error + string" where
  "callJoin v sep =
     (case v of
        JArr xs \<Rightarrow> (case elemStrings xs of Inl err \<Rightarrow> Inl err | Inr ss \<Rightarrow> Inr (joinWith sep ss))
      | JUndefined \<Rightarrow> Inl (TypeError ''Cannot read properties of undefined (reading 'join')'')
      | JNull \<Rightarrow> Inl (TypeError ''Cannot read properties of null (reading 'join')'')
      | _ \<Rightarrow> Inl (TypeError ''join is not a function''))"

definition bindE :: "'e + 'a \<Rightarrow> ('a \<Rightarrow> 'e + 'b) \<Rightarrow> 'e + 'b" where
  "bindE r f = (case r of Inl err \<Rightarrow> Inl err | Inr x \<Rightarrow> f x)"

definition buildChainOfThoughtPrompt :: "jsval \<Rightarrow> jsval \<Rightarrow> js_error + prompt" where
  "buildChainOfThoughtPrompt profile photoAnalysis =
     bindE (readProp profile ''skinType'') (\<lambda>v1.
     bindE (jsToString v1) (\<lambda>skinType.
     bindE (readProp profile ''concerns'') (\<lambda>v2.
     bindE (callJoin v2 '', '') (\<lambda>concerns.
     bindE (readProp profile ''sensitivityLevel'') (\<lambda>v3.
     bindE (jsToString v3) (\<lambda>sensitivityLevel.
     bindE (readProp profile ''ageGroup'') (\<lambda>v4.
     bindE (jsToString v4) (\<lambda>ageGroup.
     bindE (readProp photoAnalysis ''summary'') (\<lambda>v5.
     bindE (if falsy v5 then Inr ''No significant findings detected'' else jsToString v5) (\<lambda>summary.
       Inr \<lparr>pSkinType = skinType, pConcerns = concerns,
            pSensitivityLevel = sensitivityLevel, pAgeGroup = ageGroup,
            pSummary = summary\<rparr>))))))))))"

fun errorMessage :: "js_error \<Rightarrow> string" where
  "errorMessage (TypeError msg) = msg"
| "errorMessage (Error msg) = msg"
| "errorMessage (StatusError st msg) = msg"
| "errorMessage (CodedError code msg) = msg"

text \<open>\<open>handleAIError\<close> always throws; the model returns what it throws.\<close>

definition handleAIError :: "js_error \<Rightarrow> js_error" where
  "handleAIError err =
     (case err of
        StatusError st msg \<Rightarrow>
          if st = 429 then Error ''API_RATE_LIMIT: Please wait before making new requests''
          else Error (''API_ERROR: '' @ msg)
      | CodedError code msg \<Rightarrow>
          if code = ''ETIMEDOUT'' then Error ''API_TIMEOUT: Response took too long''
          else Error (''API_ERROR: '' @ msg)
      | _ \<Rightarrow> Error (''API_ERROR: '' @ errorMessage err))"

text \<open>
  What leaves the process is logged: the call of the recommendation engine with its
  payload, and the request sent to the language model with its prompt. \<open>llm\<close> is that
  request followed by \<open>parseAIResponse\<close> on the answer: the parsed object, or what either
  of them throws.
\<close>

datatype event = RecommendationCall jsval | ModelRequest prompt

definition generateRecommendations ::
  "(prompt \<Rightarrow> js_error + jsval) \<Rightarrow> jsval \<Rightarrow> jsval \<Rightarrow> (js_error + jsval) \<times> event list" where
  "generateRecommendations llm userProfile photoAnalysis =
     (case buildChainOfThoughtPrompt userProfile photoAnalysis of
        Inl err \<Rightarrow> (Inl (handleAIError err), [])
      | Inr p \<Rightarrow>
          (case llm p of
             Inl err \<Rightarrow> (Inl (handleAIError err), [ModelRequest p])
           | Inr parsed \<Rightarrow> (Inr parsed, [ModelRequest p])))"

section \<open>auth-middleware.js and the server\<close>

record request =
  authorization :: "string option"
  body :: jsval

record response =
  status :: nat
  json :: jsval

text \<open>The part of a string before the first occurrence of a separator.\<close>

fun beforeSep :: "string \<Rightarrow> string \<Rightarrow> string" where
  "beforeSep sep [] = []"
| "beforeSep sep (c # cs) = (if startsWith (c # cs) sep then [] else c # beforeSep sep cs)"

text \<open>
  \<open>requireAuth\<close>: the response it sends, or the user it attaches before calling
  \<open>next\<close>. \<open>verifyIdToken\<close> is the identity provider: the decoded token, or \<open>None\<close>
  when it rejects.
\<close>

definition requireAuth :: "(string \<Rightarrow> jsval option) \<Rightarrow> request \<Rightarrow> response + jsval" where
  "requireAuth verifyIdToken req =
     (case authorization req of
        None \<Rightarrow> Inl \<lparr>status = 401, json = JObj [(''error'', JStr ''Missing Authorization header'')]\<rparr>
      | Some authHeader \<Rightarrow>
          if startsWith authHeader ''Bearer '' then
            let idToken = trim (beforeSep ''Bearer '' (drop 7 authHeader))
            in (case verifyIdToken idToken of
                  None \<Rightarrow> Inl \<lparr>status = 401, json = JObj [(''error'', JStr ''Invalid token'')]\<rparr>
                | Some decodedToken \<Rightarrow>
                    Inr (JObj [(''uid'', getProp decodedToken ''uid''),
                               (''email'', getProp decodedToken ''email''),
                               (''authTime'', getProp decodedToken ''auth_time'')]))
          else Inl \<lparr>status = 401, json = JObj [(''error'', JStr ''Missing Authorization header'')]\<rparr>)"

text \<open>The result of \<open>validatePhotoUrls\<close> as the object it is.\<close>

definition optProp :: "string \<Rightarrow> jsval option \<Rightarrow> (string \<times> jsval) list" where
  "optProp k v = (case v of None \<Rightarrow> [] | Some x \<Rightarrow> [(k, x)])"

definition validationObject :: "validation_result \<Rightarrow> jsval" where
  "validationObject r =
     JObj ([(''success'', JBool (vr_success r))]
           @ optProp ''error'' (map_option JStr (vr_error r))
           @ optProp ''validatedUrls''
               (map_option
                 (\<lambda>vs. JArr (map (\<lambda>v. JObj [(''originalUrl'', JStr (originalUrl v)),
                                              (''index'', JNum (num_of_int (int (index v)))),
                                              (''format'', JStr (vformat v))]) vs))
                 (vr_validatedUrls r))
           @ optProp ''errors''
               (map_option
                 (\<lambda>es. JArr (map (\<lambda>e. JObj [(''index'', JNum (num_of_int (int (ue_index e)))),
                                              (''error'', JStr (ue_error e)),
                                              (''message'', JStr (ue_message e))]) es))
                 (vr_errors r))
           @ [(''message'', JStr (vr_message r))])"

text \<open>
  The handler of the route, inside its \<open>try\<close>: anything thrown ends in the 500
  response.
\<close>

definition internalError :: response where
  "internalError = \<lparr>status = 500, json = JObj [(''error'', JStr ''INTERNAL_ERROR'')]\<rparr>"

definition recommendationsHandler ::
  "(string \<Rightarrow> bool) \<Rightarrow> (prompt \<Rightarrow> js_error + jsval) \<Rightarrow> jsval \<Rightarrow> request
     \<Rightarrow> response \<times> event list" where
  "recommendationsHandler isURL llm user req =
     (if body req = JUndefined \<or> body req = JNull then (internalError, [])
      else
        let profileData = getProp (body req) ''profileData'';
            questionnaireAnswers = getProp (body req) ''questionnaireAnswers'';
            photos = getProp (body req) ''photos''
        in (case processQuestionnaireAnswers questionnaireAnswers of
              Inl err \<Rightarrow> (internalError, [])
            | Inr processedProfile \<Rightarrow>
                let validatedPhotos = validatePhotoUrls isURL photos;
                    payload = JObj [(''profileData'', profileData),
                                    (''processedAnswers'', processedProfile),
                                    (''photos'', validationObject validatedPhotos)]
                in (case generateRecommendations llm payload JUndefined of
                      (Inl err, events) \<Rightarrow> (internalError, RecommendationCall payload # events)
                    | (Inr recommendations, events) \<Rightarrow>
                        (\<lparr>status = 200,
                          json = JObj [(''success'', JBool True),
                                       (''recommendations'', recommendations),
                                       (''user'', user)]\<rparr>,
                         RecommendationCall payload # events))))"

text \<open>
  The route \<open>POST /apirecommendations\<close>: \<open>requireAuth\<close>, then the validation step, which
  goes on to the handler when the result of \<open>validateAPIRequest\<close> is truthy, then the
  handler.
\<close>

definition post_apirecommendations ::
  "(string \<Rightarrow> jsval option) \<Rightarrow> (string \<Rightarrow> bool) \<Rightarrow> (prompt \<Rightarrow> js_error + jsval) \<Rightarrow> request
     \<Rightarrow> response \<times> event list" where
  "post_apirecommendations verifyIdToken isURL llm req =
     (case requireAuth verifyIdToken req of
        Inl denied \<Rightarrow> (denied, [])
      | Inr user \<Rightarrow>
          if falsy (validateAPIRequest (body req))
          then (\<lparr>status = 400, json = JObj [(''error'', JStr ''INVALID_REQUEST'')]\<rparr>, [])
          else recommendationsHandler isURL llm user req)"

section \<open>Notions used in the statements\<close>

text \<open>The answers of the accessibility probes of a call, one per photo, in order.\<close>

definition probes :: "(nat \<Rightarrow> string \<Rightarrow> head_outcome) \<Rightarrow> validated_photo list \<Rightarrow> accessibility list" where
  "probes axios validatedPhotos =
     map (\<lambda>(k, photo). verifyPhotoAccessibility (axios k (originalUrl photo)))
       (enumerate 0 validatedPhotos)"

text \<open>What the loop of \<open>formatPhotosForAI\<close> makes of each photo, in order.\<close>

definition attempts ::
  "(nat \<Rightarrow> string \<Rightarrow> head_outcome) \<Rightarrow> validated_photo list \<Rightarrow> (processing_error + formatted_photo) list" where
  "attempts axios validatedPhotos =
     map (\<lambda>(k, photo). formatPhoto (axios k (originalUrl photo)) photo)
       (enumerate 0 validatedPhotos)"

text \<open>Three validated photos, and a network on which the second request times out.\<close>

definition example_photos :: "validated_photo list" where
  "example_photos =
     [\<lparr>originalUrl = ''https://example.com/a.jpg'', index = 0, vformat = ''JPEG''\<rparr>,
      \<lparr>originalUrl = ''https://example.com/b.png'', index = 1, vformat = ''PNG''\<rparr>,
      \<lparr>originalUrl = ''https://example.com/c.webp'', index = 2, vformat = ''WebP''\<rparr>]"

definition example_axios :: "nat \<Rightarrow> string \<Rightarrow> head_outcome" where
  "example_axios k u =
     (if k = 1 then Aborted
      else Response [(''content-type'', ''image/jpeg''), (''content-length'', ''300000'')])"

text \<open>The rule of the \<open>age\<close> field.\<close>

definition ageRule :: field_rule where
  "ageRule = \<lparr>key = ''age'', ftype = ''number'', minLength = None, fmin = Some (num_of_int 13),
       fmax = Some (num_of_int 120), isArr = False, allowed = None\<rparr>"

text \<open>A profile whose age is the string \<open>5\<close>, and its messages.\<close>

definition example_profile :: jsval where
  "example_profile =
     JObj [(''name'', JStr ''Al''), (''age'', JStr ''5''), (''skinType'', JStr ''dry''),
           (''concerns'', JArr [JStr ''acne'']), (''location'', JStr ''Oslo'')]"

text \<open>
  The canonical form of a decimal: a mantissa that is not a multiple of ten, and
  \<open>Dec 0 0\<close> for zero. A finite value is a double when it is canonical and the rounding
  leaves its magnitude as it is. Every number the parsers return is a double, and
  \<open>parseInt\<close> returns \<open>NaN\<close> or a whole number, negative zero and the infinities
  counted in.
\<close>

definition canon :: "int \<Rightarrow> int \<Rightarrow> bool" where
  "canon m e = (if m = 0 then e = 0 else m mod 10 \<noteq> 0)"

fun isDouble :: "jsnum \<Rightarrow> bool" where
  "isDouble (Dec m e) = (canon m e \<and> roundDec False (nat \<bar>m\<bar>) e = Dec \<bar>m\<bar> e)"
| "isDouble _ = True"

fun wholeNumber :: "jsnum \<Rightarrow> bool" where
  "wholeNumber (Dec m e) = (isDouble (Dec m e) \<and> (m = 0 \<or> 0 \<le> e))"
| "wholeNumber NaN = False"
| "wholeNumber _ = True"

text \<open>
  The format of a double: a mantissa \<open>m\<close> of at most 53 bits and an exponent \<open>e\<close> of the
  last bit, for the value \<open>m * 2 ^ e\<close>, below \<open>2 ^ 1024\<close>; outside the subnormal range
  the mantissa has its full length.
\<close>

definition doubleFormat :: "nat \<Rightarrow> int \<Rightarrow> bool" where
  "doubleFormat m e =
     (0 < m \<and> m \<le> 2 ^ 53 \<and> - 1074 \<le> e \<and> e \<le> 971 \<and> \<not> (e = 971 \<and> m = 2 ^ 53)
      \<and> (e = - 1074 \<or> 2 ^ 52 \<le> m))"

text \<open>The part of \<open>parseFloatStr\<close> after the sign and the test for \<open>Infinity\<close>.\<close>

definition floatCore :: "bool \<Rightarrow> string \<Rightarrow> jsnum" where
  "floatCore negative S =
     (let intDigits = takeWhile isDigit S;
          r = dropWhile isDigit S;
          fracDigits = (if startsWith r ''.'' then takeWhile isDigit (drop 1 r) else []);
          r = (if startsWith r ''.'' then dropWhile isDigit (drop 1 r) else r)
      in if intDigits = [] \<and> fracDigits = [] then NaN
         else
           roundDec negative (radixValue 10 (intDigits @ fracDigits))
             (parseExponent r - int (length fracDigits)))"

text \<open>
  A value that is not a number of magnitude \<open>10 ^ 21\<close> or more: from there on numbers
  print in exponent form. An absent key reads as \<open>undefined\<close>, which passes.
\<close>

definition below1e21 :: "jsval \<Rightarrow> bool" where
  "below1e21 v =
     (case v of
        JNum x \<Rightarrow>
          (case x of
             Dec m e \<Rightarrow> \<bar>dec_val m e\<bar> < 10 ^ 21
           | NaN \<Rightarrow> True
           | NegZero \<Rightarrow> True
           | _ \<Rightarrow> False)
      | _ \<Rightarrow> True)"

text \<open>Questionnaire answers as a form would send them.\<close>

definition example_answers :: jsval where
  "example_answers =
     JObj [(''hydration'', JStr ''7''), (''sunExposure'', JStr ''High''),
           (''sleepHours'', JStr ''7.5 hours''), (''stressLevel'', JStr ''n/a'')]"

definition example_normalized :: jsval where
  "example_normalized =
     JObj [(''hydration'', JNum (Dec 7 0)), (''sunExposure'', JStr ''high''),
           (''sleepHours'', JNum (Dec 75 (- 1)))]"

section \<open>Decimals and rounding: properties\<close>

text \<open>The value of a decimal, and its canonical form.\<close>

lemma dec_val_simps [simp]:
  "dec_val m 0 = of_int m"
  "dec_val m (numeral k) = of_int m * 10 ^ numeral k"
  "dec_val m 1 = of_int m * 10"
  by (simp_all add: dec_val_def)

lemma dec_val_powi: "dec_val m e = of_int m * 10 powi e"
  by (simp add: dec_val_def power_int_def field_simps)

lemma dec_val_norm10: "norm10 m e = (m', e') \<Longrightarrow> dec_val m' e' = dec_val m e"
proof (induction m e rule: norm10.induct)
  case (1 m e)
  show ?case
  proof (cases "m = 0")
    case True
    with "1.prems" show ?thesis by (simp add: norm10.simps dec_val_powi)
  next
    case nz: False
    show ?thesis
    proof (cases "m mod 10 = 0")
      case True
      with nz "1.prems" have step: "norm10 (m div 10) (e + 1) = (m', e')"
        by (simp add: norm10.simps [of m e])
      from True have m: "m = (m div 10) * 10" by presburger
      have "dec_val m' e' = dec_val (m div 10) (e + 1)"
        using "1.IH" [OF nz True step] .
      also have "\<dots> = of_int (m div 10) * 10 * 10 powi e"
        by (simp add: dec_val_powi power_int_add)
      also have "\<dots> = of_int m * 10 powi e"
        using m by (metis of_int_mult of_int_numeral)
      finally show ?thesis by (simp add: dec_val_powi)
    next
      case False
      with nz "1.prems" show ?thesis by (simp add: norm10.simps [of m e])
    qed
  qed
qed

lemma norm10_canon_id: "canon m e \<Longrightarrow> norm10 m e = (m, e)"
  by (simp add: canon_def norm10.simps split: if_splits)

lemma norm10_canon: "norm10 m e = (m', e') \<Longrightarrow> canon m' e'"
proof (induction m e rule: norm10.induct)
  case (1 m e)
  show ?case
  proof (cases "m = 0")
    case True
    with "1.prems" show ?thesis
      by (simp add: norm10.simps [of 0 e] canon_def)
  next
    case nz: False
    show ?thesis
    proof (cases "m mod 10 = 0")
      case True
      with nz "1.prems" have "norm10 (m div 10) (e + 1) = (m', e')"
        by (simp add: norm10.simps [of m e])
      from "1.IH" [OF nz True this] show ?thesis .
    next
      case False
      with nz "1.prems" show ?thesis
        by (simp add: norm10.simps [of m e] canon_def)
    qed
  qed
qed

lemma norm10_exp_mono: "norm10 m e = (m', e') \<Longrightarrow> m' = 0 \<or> e \<le> e'"
proof (induction m e rule: norm10.induct)
  case (1 m e)
  show ?case
  proof (cases "m = 0")
    case True
    with "1.prems" show ?thesis
      by (simp add: norm10.simps [of 0 e])
  next
    case nz: False
    show ?thesis
    proof (cases "m mod 10 = 0")
      case True
      with nz "1.prems" have "norm10 (m div 10) (e + 1) = (m', e')"
        by (simp add: norm10.simps [of m e])
      from "1.IH" [OF nz True this] show ?thesis by auto
    next
      case False
      with nz "1.prems" show ?thesis
        by (simp add: norm10.simps [of m e])
    qed
  qed
qed

lemma norm10_shift: "m \<noteq> 0 \<Longrightarrow> norm10 (m * 10 ^ j) e = norm10 m (e + int j)"
proof (induction j arbitrary: e)
  case 0
  show ?case by simp
next
  case (Suc j)
  have nz: "m * 10 ^ Suc j \<noteq> 0" using Suc.prems by simp
  have "(m * 10 ^ Suc j) mod 10 = 0" by simp
  moreover have "(m * 10 ^ Suc j) div 10 = m * 10 ^ j" by simp
  ultimately have "norm10 (m * 10 ^ Suc j) e = norm10 (m * 10 ^ j) (e + 1)"
    using nz by (subst norm10.simps) simp
  also have "\<dots> = norm10 m (e + 1 + int j)"
    using Suc.IH [OF Suc.prems] by simp
  finally show ?case by (simp add: add.commute add.left_commute)
qed

text \<open>
  The binary logarithm: \<open>floorLog2 a b\<close> is the one exponent \<open>k\<close> with
  \<open>2 ^ k \<le> a / b < 2 ^ (k + 1)\<close>.
\<close>

lemma bitLength_upper: "n < 2 ^ bitLength n"
proof (induction n rule: bitLength.induct)
  case (1 n)
  show ?case
  proof (cases "n = 0")
    case True
    then show ?thesis by simp
  next
    case False
    from "1.IH" [OF False] have "n div 2 < 2 ^ bitLength (n div 2)" .
    then have "n < 2 * 2 ^ bitLength (n div 2)" by linarith
    with False show ?thesis by (subst bitLength.simps) simp
  qed
qed

lemma bitLength_lower: "0 < n \<Longrightarrow> 2 ^ (bitLength n - 1) \<le> n"
proof (induction n rule: bitLength.induct)
  case (1 n)
  from "1.prems" have nz: "n \<noteq> 0" by simp
  have bl: "bitLength n = Suc (bitLength (n div 2))"
    using nz by (subst bitLength.simps) simp
  show ?case
  proof (cases "n div 2 = 0")
    case True
    then show ?thesis using "1.prems" by (simp add: bl bitLength.simps [of 0])
  next
    case False
    then have pos: "0 < n div 2" by simp
    from "1.IH" [OF nz pos] have ih: "2 ^ (bitLength (n div 2) - 1) \<le> n div 2" .
    have "bitLength (n div 2) \<noteq> 0"
      using False by (subst bitLength.simps) simp
    then have "(2::nat) ^ bitLength (n div 2) = 2 * 2 ^ (bitLength (n div 2) - 1)"
      by (cases "bitLength (n div 2)") simp_all
    also have "\<dots> \<le> 2 * (n div 2)" using ih by simp
    also have "\<dots> \<le> n" by simp
    finally show ?thesis by (simp add: bl)
  qed
qed

lemma bitLength_pos: "0 < n \<Longrightarrow> 0 < bitLength n"
  by (subst bitLength.simps) simp

lemma pow_split: "x \<noteq> 0 \<Longrightarrow> (x::rat) ^ nat d = x powi d * x ^ nat (- d)"
  by (cases "0 \<le> d") (simp_all add: power_int_def power_inverse)

lemma powi_pos [simp]: "0 < (2::rat) powi k" "0 < (10::rat) powi k"
  by (simp_all add: zero_less_power_int)

lemma bitLength_rat:
  assumes "0 < n"
  shows "2 powi (int (bitLength n) - 1) \<le> (of_nat n :: rat)"
    and "(of_nat n :: rat) < 2 powi int (bitLength n)"
proof -
  obtain k where k: "bitLength n = Suc k"
    using bitLength_pos [OF assms] by (cases "bitLength n") simp_all
  have "(of_nat (2 ^ k) :: rat) \<le> of_nat n"
    using bitLength_lower [OF assms] unfolding k by (simp only: of_nat_le_iff diff_Suc_1)
  then show "2 powi (int (bitLength n) - 1) \<le> (of_nat n :: rat)"
    by (simp add: k)
  have "(of_nat n :: rat) < of_nat (2 ^ bitLength n)"
    using bitLength_upper [of n] by (simp only: of_nat_less_iff)
  then show "(of_nat n :: rat) < 2 powi int (bitLength n)" by simp
qed

lemma floorLog2_test:
  "(b * 2 ^ nat d \<le> a * 2 ^ nat (- d)) = ((of_nat b :: rat) * 2 powi d \<le> of_nat a)"
proof -
  have "(b * 2 ^ nat d \<le> a * 2 ^ nat (- d))
      = ((of_nat (b * 2 ^ nat d) :: rat) \<le> of_nat (a * 2 ^ nat (- d)))"
    by (simp only: of_nat_le_iff)
  also have "\<dots> = ((of_nat b :: rat) * (2 powi d * 2 ^ nat (- d)) \<le> of_nat a * 2 ^ nat (- d))"
    using pow_split [of 2 d] by simp
  also have "\<dots> = (((of_nat b :: rat) * 2 powi d) * 2 ^ nat (- d) \<le> of_nat a * 2 ^ nat (- d))"
    by (simp only: mult.assoc)
  also have "\<dots> = ((of_nat b :: rat) * 2 powi d \<le> of_nat a)"
    by (rule mult_le_cancel_right_pos) simp
  finally show ?thesis .
qed

lemma floorLog2_spec:
  assumes a: "0 < a" and b: "0 < b"
  shows "2 powi floorLog2 a b * of_nat b \<le> (of_nat a :: rat)"
    and "(of_nat a :: rat) < 2 powi (floorLog2 a b + 1) * of_nat b"
proof -
  define d where "d = int (bitLength a) - int (bitLength b)"
  note A = bitLength_rat [OF a] and B = bitLength_rat [OF b]
  have bpos: "0 < (of_nat b :: rat)" using b by simp
  have up: "(of_nat a :: rat) < 2 powi (d + 1) * of_nat b"
  proof -
    have "(of_nat a :: rat) < 2 powi int (bitLength a)" by (rule A(2))
    also have "int (bitLength a) = (d + 1) + (int (bitLength b) - 1)"
      by (simp add: d_def)
    also have "(2::rat) powi ((d + 1) + (int (bitLength b) - 1))
        = 2 powi (d + 1) * 2 powi (int (bitLength b) - 1)"
      by (rule power_int_add) simp
    also have "\<dots> \<le> 2 powi (d + 1) * of_nat b"
      using B(1) by (intro mult_left_mono) simp_all
    finally show ?thesis .
  qed
  have low: "2 powi (d - 1) * of_nat b \<le> (of_nat a :: rat)"
  proof -
    have "2 powi (d - 1) * (of_nat b :: rat) \<le> 2 powi (d - 1) * 2 powi int (bitLength b)"
      using B(2) by (intro mult_left_mono) simp_all
    also have "\<dots> = 2 powi ((d - 1) + int (bitLength b))"
      by (rule power_int_add [symmetric]) simp
    also have "(d - 1) + int (bitLength b) = int (bitLength a) - 1"
      by (simp add: d_def)
    also have "2 powi (int (bitLength a) - 1) \<le> (of_nat a :: rat)" by (rule A(1))
    finally show ?thesis .
  qed
  have fl: "floorLog2 a b = (if (of_nat b :: rat) * 2 powi d \<le> of_nat a then d else d - 1)"
    unfolding floorLog2_def Let_def floorLog2_test d_def ..
  show "2 powi floorLog2 a b * of_nat b \<le> (of_nat a :: rat)"
  proof (cases "(of_nat b :: rat) * 2 powi d \<le> of_nat a")
    case True
    then show ?thesis by (simp add: fl mult.commute)
  next
    case False
    then show ?thesis using low by (simp add: fl)
  qed
  show "(of_nat a :: rat) < 2 powi (floorLog2 a b + 1) * of_nat b"
  proof (cases "(of_nat b :: rat) * 2 powi d \<le> of_nat a")
    case True
    then show ?thesis using up by (simp add: fl)
  next
    case False
    then show ?thesis by (simp add: fl mult.commute)
  qed
qed

lemma floorLog2_le:
  assumes a: "0 < a" and b: "0 < b"
    and k: "2 powi k * of_nat b \<le> (of_nat a :: rat)"
  shows "k \<le> floorLog2 a b"
proof (rule ccontr)
  assume "\<not> k \<le> floorLog2 a b"
  then have "floorLog2 a b + 1 \<le> k" by simp
  then have "(2::rat) powi (floorLog2 a b + 1) \<le> 2 powi k"
    by (intro power_int_increasing) simp_all
  then have "2 powi (floorLog2 a b + 1) * (of_nat b :: rat) \<le> 2 powi k * of_nat b"
    by (intro mult_right_mono) simp_all
  with k floorLog2_spec(2) [OF a b] show False by simp
qed

lemma floorLog2_ge:
  assumes a: "0 < a" and b: "0 < b"
    and k: "(of_nat a :: rat) < 2 powi (k + 1) * of_nat b"
  shows "floorLog2 a b \<le> k"
proof (rule ccontr)
  assume "\<not> floorLog2 a b \<le> k"
  then have "k + 1 \<le> floorLog2 a b" by simp
  then have "(2::rat) powi (k + 1) \<le> 2 powi floorLog2 a b"
    by (intro power_int_increasing) simp_all
  then have "2 powi (k + 1) * (of_nat b :: rat) \<le> 2 powi floorLog2 a b * of_nat b"
    by (intro mult_right_mono) simp_all
  with k floorLog2_spec(1) [OF a b] show False by simp
qed

lemma floorLog2_eq:
  assumes "0 < a" and "0 < b"
    and "2 powi k * of_nat b \<le> (of_nat a :: rat)"
    and "(of_nat a :: rat) < 2 powi (k + 1) * of_nat b"
  shows "floorLog2 a b = k"
  using floorLog2_le [OF assms(1,2,3)] floorLog2_ge [OF assms(1,2,4)] by simp

lemma floorLog2_scale:
  assumes a: "0 < a" and b: "0 < b" and c: "0 < c"
  shows "floorLog2 (a * c) (b * c) = floorLog2 a b"
proof (rule floorLog2_eq)
  have cpos: "0 < (of_nat c :: rat)" using c by simp
  show "0 < a * c" "0 < b * c" using a b c by simp_all
  have "2 powi floorLog2 a b * (of_nat (b * c) :: rat) = (2 powi floorLog2 a b * of_nat b) * of_nat c"
    by simp
  also have "\<dots> \<le> of_nat a * of_nat c"
    using floorLog2_spec(1) [OF a b] cpos by (intro mult_right_mono) simp_all
  finally show "2 powi floorLog2 a b * (of_nat (b * c) :: rat) \<le> of_nat (a * c)" by simp
  have "(of_nat (a * c) :: rat) = of_nat a * of_nat c" by simp
  also have "\<dots> < (2 powi (floorLog2 a b + 1) * of_nat b) * of_nat c"
    using floorLog2_spec(2) [OF a b] cpos by (intro mult_strict_right_mono) simp_all
  finally show "(of_nat (a * c) :: rat) < 2 powi (floorLog2 a b + 1) * of_nat (b * c)"
    by (simp add: mult.assoc)
qed

lemma roundHalfEven_exact: "0 < d \<Longrightarrow> roundHalfEven (k * d) d = k"
  by (simp add: roundHalfEven_def)

lemma roundHalfEven_scale: "0 < c \<Longrightarrow> roundHalfEven (n * c) (d * c) = roundHalfEven n d"
  by (simp add: roundHalfEven_def Let_def)

lemma roundHalfEven_lower:
  assumes d: "0 < d" and k: "k * d \<le> n"
  shows "k \<le> roundHalfEven n d"
proof -
  from k d have "k \<le> n div d" by (simp add: less_eq_div_iff_mult_less_eq)
  then show ?thesis by (simp add: roundHalfEven_def Let_def)
qed

lemma roundHalfEven_upper:
  assumes d: "0 < d" and k: "n \<le> k * d"
  shows "roundHalfEven n d \<le> k"
proof (cases "n = k * d")
  case True
  with d show ?thesis by (simp add: roundHalfEven_exact)
next
  case False
  with k have "n < k * d" by simp
  with d have "n div d < k" by (simp add: div_less_iff_less_mult)
  then show ?thesis by (simp add: roundHalfEven_def Let_def)
qed

text \<open>A canonical decimal is determined by its value.\<close>

lemma canon_unique_le:
  assumes c: "canon m e" and c': "canon m' e'" and le: "e \<le> e'"
    and v: "dec_val m e = dec_val m' e'"
  shows "m = m' \<and> e = e'"
proof -
  define k where "k = nat (e' - e)"
  have e': "e' = e + int k" using le by (simp add: k_def)
  have "(of_int m :: rat) * 10 powi e = of_int m' * (10 powi e * 10 ^ k)"
    using v by (simp add: dec_val_powi e' power_int_add)
  then have "(of_int m :: rat) * 10 powi e = (of_int m' * 10 ^ k) * 10 powi e"
    by (simp only: mult.assoc mult.commute [of "10 powi e"])
  then have "(of_int m :: rat) = of_int m' * 10 ^ k"
    by (simp only: mult_cancel_right) simp
  then have "(of_int m :: rat) = of_int (m' * 10 ^ k)" by simp
  then have m: "m = m' * 10 ^ k" by (simp only: of_int_eq_iff)
  show ?thesis
  proof (cases "k = 0")
    case True
    with m e' show ?thesis by simp
  next
    case False
    then obtain j where "k = Suc j" by (cases k) simp_all
    with m have "m mod 10 = 0" by simp
    with c have "m = 0" "e = 0" by (simp_all add: canon_def split: if_splits)
    with m have "m' = 0" by simp
    with c' have "e' = 0" by (simp add: canon_def)
    with \<open>m = 0\<close> \<open>m' = 0\<close> \<open>e = 0\<close> show ?thesis by simp
  qed
qed

lemma canon_unique:
  assumes "canon m e" and "canon m' e'" and "dec_val m e = dec_val m' e'"
  shows "m = m' \<and> e = e'"
proof (cases "e \<le> e'")
  case True
  from canon_unique_le [OF assms(1,2) True assms(3)] show ?thesis .
next
  case False
  then have "e' \<le> e" by simp
  from canon_unique_le [OF assms(2,1) this assms(3) [symmetric]] show ?thesis by simp
qed

lemma mkDec_val: "\<exists>M E. mkDec x e = Dec M E \<and> canon M E \<and> dec_val M E = dec_val x e"
proof (cases "norm10 x e")
  case (Pair M E)
  with norm10_canon [OF Pair] dec_val_norm10 [OF Pair] show ?thesis
    by (simp add: mkDec_def)
qed

lemma mkDec_eqI:
  assumes "canon M E" and "dec_val x e = dec_val M E"
  shows "mkDec x e = Dec M E"
proof -
  from mkDec_val [of x e] obtain M' E' where
    r: "mkDec x e = Dec M' E'" and c: "canon M' E'" and v: "dec_val M' E' = dec_val x e"
    by blast
  from canon_unique [OF c assms(1)] v assms(2) have "M' = M \<and> E' = E" by simp
  with r show ?thesis by simp
qed

lemma mkDec_cong: "dec_val x e = dec_val x' e' \<Longrightarrow> mkDec x e = mkDec x' e'"
proof -
  assume v: "dec_val x e = dec_val x' e'"
  from mkDec_val [of x' e'] obtain M E where
    r: "mkDec x' e' = Dec M E" and c: "canon M E" and v': "dec_val M E = dec_val x' e'"
    by blast
  from mkDec_eqI [OF c, of x e] v v' r show ?thesis by simp
qed

lemma mod10_neg: "((- m) mod 10 = 0) = ((m::int) mod 10 = 0)"
  by presburger

lemma canon_neg: "canon (- m) e = canon m e"
  by (simp add: canon_def mod10_neg)

lemma canon_abs: "canon \<bar>m\<bar> e = canon m e"
  by (cases "m < 0") (simp_all add: canon_neg)

lemma dec_val_neg: "dec_val (- m) e = - dec_val m e"
  by (simp add: dec_val_powi)

lemma mkDec_neg: "mkDec x e = Dec M E \<Longrightarrow> mkDec (- x) e = Dec (- M) E"
proof -
  assume r: "mkDec x e = Dec M E"
  from mkDec_val [of x e] r have c: "canon M E" and v: "dec_val M E = dec_val x e" by auto
  show ?thesis
    by (rule mkDec_eqI) (simp_all add: canon_neg c dec_val_neg v)
qed

text \<open>The value of a double given by its mantissa and binary exponent.\<close>

lemma fromDyadic_mkDec:
  "\<exists>x d. fromDyadic neg m e = mkDec (if neg then - x else x) d
     \<and> dec_val x d = of_nat m * 2 powi e"
proof (cases "0 \<le> e")
  case True
  have "dec_val (int m * 2 ^ nat e) 0 = of_nat m * 2 powi e"
    using True by (simp add: dec_val_powi power_int_def)
  moreover have "fromDyadic neg m e
      = mkDec (if neg then - (int m * 2 ^ nat e) else int m * 2 ^ nat e) 0"
    using True by (simp add: fromDyadic_def Let_def)
  ultimately show ?thesis by blast
next
  case False
  define k where "k = nat (- e)"
  have e: "e = - int k" using False by (simp add: k_def)
  have "(10::rat) ^ k = 5 ^ k * 2 ^ k" by (simp flip: power_mult_distrib)
  then have "dec_val (int m * 5 ^ k) e = of_nat m * 2 powi e"
    by (simp add: dec_val_powi e power_int_minus field_simps)
  moreover have "fromDyadic neg m e = mkDec (if neg then - (int m * 5 ^ k) else int m * 5 ^ k) e"
    using False by (simp add: fromDyadic_def Let_def k_def)
  ultimately show ?thesis by blast
qed

lemma fromDyadic_val:
  "\<exists>M E. fromDyadic neg m e = Dec M E \<and> canon M E
     \<and> dec_val M E = (if neg then - 1 else 1) * (of_nat m * 2 powi e)"
proof -
  from fromDyadic_mkDec [of neg m e] obtain x d where
    r: "fromDyadic neg m e = mkDec (if neg then - x else x) d"
    and v: "dec_val x d = of_nat m * 2 powi e" by blast
  from mkDec_val [of "if neg then - x else x" d] obtain M E where
    "mkDec (if neg then - x else x) d = Dec M E" "canon M E"
    "dec_val M E = dec_val (if neg then - x else x) d" by blast
  with r v show ?thesis by (auto simp add: dec_val_neg)
qed

lemma fromDyadic_cong:
  assumes "(of_nat m :: rat) * 2 powi e = of_nat m' * 2 powi e'"
  shows "fromDyadic neg m e = fromDyadic neg m' e'"
proof -
  from fromDyadic_mkDec [of neg m e] obtain x d where
    r: "fromDyadic neg m e = mkDec (if neg then - x else x) d"
    and v: "dec_val x d = of_nat m * 2 powi e" by blast
  from fromDyadic_mkDec [of neg m' e'] obtain x' d' where
    r': "fromDyadic neg m' e' = mkDec (if neg then - x' else x') d'"
    and v': "dec_val x' d' = of_nat m' * 2 powi e'" by blast
  have "mkDec (if neg then - x else x) d = mkDec (if neg then - x' else x') d'"
    by (rule mkDec_cong) (simp add: dec_val_neg v v' assms)
  with r r' show ?thesis by simp
qed

lemma fromDyadic_flip:
  assumes "fromDyadic neg m e = Dec M E"
  shows "fromDyadic (\<not> neg) m e = Dec (- M) E"
proof -
  from fromDyadic_mkDec [of neg m e] obtain x d where
    r: "fromDyadic neg m e = mkDec (if neg then - x else x) d"
    and v: "dec_val x d = of_nat m * 2 powi e" by blast
  from fromDyadic_mkDec [of "\<not> neg" m e] obtain x' d' where
    r': "fromDyadic (\<not> neg) m e = mkDec (if \<not> neg then - x' else x') d'"
    and v': "dec_val x' d' = of_nat m * 2 powi e" by blast
  have "mkDec (if \<not> neg then - x' else x') d' = mkDec (- (if neg then - x else x)) d"
    by (rule mkDec_cong) (simp add: dec_val_neg v v')
  also have "\<dots> = Dec (- M) E"
    using assms r by (intro mkDec_neg) simp
  finally show ?thesis using r' by simp
qed

lemma dec_val_sign: "(dec_val M E < 0) = (M < 0)" "(dec_val M E = 0) = (M = 0)"
proof -
  have "0 < (10::rat) powi E" by simp
  then have p: "\<not> (10::rat) powi E < 0" by (simp only: not_less less_imp_le)
  show "(dec_val M E < 0) = (M < 0)"
    by (simp add: dec_val_powi mult_less_0_iff p)
  show "(dec_val M E = 0) = (M = 0)"
    by (simp add: dec_val_powi)
qed

lemma fromDyadic_sign:
  assumes "fromDyadic neg m e = Dec M E" and "0 < m"
  shows "M \<noteq> 0" and "(M < 0) = neg"
proof -
  from fromDyadic_val [of neg m e] assms(1)
  have v: "dec_val M E = (if neg then - 1 else 1) * (of_nat m * 2 powi e)" by auto
  have pos: "0 < (of_nat m :: rat) * 2 powi e" using assms(2) by simp
  define r where "r = (of_nat m :: rat) * 2 powi e"
  from v pos have v': "dec_val M E = (if neg then - r else r)" and r: "0 < r"
    by (simp_all add: r_def)
  from v' r have "dec_val M E \<noteq> 0" by (cases neg) simp_all
  then show "M \<noteq> 0" by (simp add: dec_val_sign)
  from v' r have "(dec_val M E < 0) = neg" by (cases neg) (simp_all add: not_less less_imp_le)
  then show "(M < 0) = neg" by (simp add: dec_val_sign)
qed

text \<open>
  The rounding depends on the value of the fraction only; it leaves a value in the format
  of a double as it is, and what it returns is in that format.
\<close>

lemma roundFrac_scale:
  assumes b: "0 < b" and c: "0 < c"
  shows "roundFrac neg (a * c) (b * c) = roundFrac neg a b"
proof (cases "a = 0")
  case True
  then show ?thesis by (simp add: roundFrac_def)
next
  case False
  then have a: "0 < a" by simp
  have fl: "floorLog2 (a * c) (b * c) = floorLog2 a b"
    by (rule floorLog2_scale [OF a b c])
  have r: "roundHalfEven (a * c * 2 ^ k) (b * c * 2 ^ l) = roundHalfEven (a * 2 ^ k) (b * 2 ^ l)"
    for k l
  proof -
    have "roundHalfEven (a * c * 2 ^ k) (b * c * 2 ^ l)
        = roundHalfEven ((a * 2 ^ k) * c) ((b * 2 ^ l) * c)"
      by (simp only: mult.assoc mult.commute [of c])
    also have "\<dots> = roundHalfEven (a * 2 ^ k) (b * 2 ^ l)"
      by (rule roundHalfEven_scale [OF c])
    finally show ?thesis .
  qed
  have az: "(a * c = 0) = (a = 0)" using c by simp
  show ?thesis
    unfolding roundFrac_def fl az r by (rule refl)
qed

lemma roundFrac_cong:
  assumes b: "0 < b" and b': "0 < b'" and eq: "a * b' = a' * b"
  shows "roundFrac neg a b = roundFrac neg a' b'"
proof -
  have "roundFrac neg a b = roundFrac neg (a * b') (b * b')"
    by (rule roundFrac_scale [OF b b', symmetric])
  also have "\<dots> = roundFrac neg (a' * b) (b' * b)"
    by (simp only: eq mult.commute [of b b'])
  also have "\<dots> = roundFrac neg a' b'"
    by (rule roundFrac_scale [OF b' b])
  finally show ?thesis .
qed

lemma roundDec_alt: "roundDec neg N E = roundFrac neg (N * 10 ^ nat E) (10 ^ nat (- E))"
  by (simp add: roundDec_def)

lemma frac_rat:
  "(of_nat (N * 10 ^ nat E) :: rat) = (of_nat N * 10 powi E) * of_nat (10 ^ nat (- E))"
proof -
  have "(of_nat (N * 10 ^ nat E) :: rat) = of_nat N * 10 ^ nat E" by simp
  also have "\<dots> = of_nat N * (10 powi E * 10 ^ nat (- E))"
    by (simp only: pow_split [of 10 E, simplified])
  finally show ?thesis by (simp only: of_nat_power of_nat_numeral mult.assoc)
qed

lemma roundDec_cong:
  assumes "(of_nat N :: rat) * 10 powi E = of_nat N' * 10 powi E'"
  shows "roundDec neg N E = roundDec neg N' E'"
  unfolding roundDec_alt
proof (rule roundFrac_cong)
  show "0 < (10::nat) ^ nat (- E)" "0 < (10::nat) ^ nat (- E')" by simp_all
  have "(of_nat (N * 10 ^ nat E * 10 ^ nat (- E')) :: rat)
      = of_nat (N * 10 ^ nat E) * of_nat (10 ^ nat (- E'))"
    by (simp only: of_nat_mult)
  also have "\<dots> = (of_nat N' * 10 powi E') * of_nat (10 ^ nat (- E)) * of_nat (10 ^ nat (- E'))"
    by (simp only: frac_rat assms)
  also have "\<dots> = of_nat (N' * 10 ^ nat E') * of_nat (10 ^ nat (- E))"
    by (simp only: frac_rat mult.assoc mult.commute [of "of_nat (10 ^ nat (- E))"])
  also have "\<dots> = of_nat (N' * 10 ^ nat E' * 10 ^ nat (- E))"
    by (simp only: of_nat_mult)
  finally show "N * 10 ^ nat E * 10 ^ nat (- E') = N' * 10 ^ nat E' * 10 ^ nat (- E)"
    by (simp only: of_nat_eq_iff)
qed

lemma scaled_rat:
  "(of_nat (k * (b * 2 ^ nat j)) :: rat) = (of_nat k * 2 powi j * of_nat b) * 2 ^ nat (- j)"
proof -
  have "(of_nat (k * (b * 2 ^ nat j)) :: rat) = of_nat k * of_nat b * 2 ^ nat j" by simp
  also have "\<dots> = of_nat k * of_nat b * (2 powi j * 2 ^ nat (- j))"
    by (simp only: pow_split [of 2 j, simplified])
  finally show ?thesis by (simp only: mult.assoc mult.left_commute mult.commute)
qed

lemma scaled_le:
  assumes "(of_nat a :: rat) \<le> of_nat k * 2 powi j * of_nat b"
  shows "a * 2 ^ nat (- j) \<le> k * (b * 2 ^ nat j)"
proof -
  have "(of_nat (a * 2 ^ nat (- j)) :: rat) = of_nat a * 2 ^ nat (- j)" by simp
  also have "\<dots> \<le> (of_nat k * 2 powi j * of_nat b) * 2 ^ nat (- j)"
    using assms by (rule mult_right_mono) simp
  also have "\<dots> = of_nat (k * (b * 2 ^ nat j))" by (simp only: scaled_rat)
  finally show ?thesis by (simp only: of_nat_le_iff)
qed

lemma scaled_ge:
  assumes "of_nat k * 2 powi j * of_nat b \<le> (of_nat a :: rat)"
  shows "k * (b * 2 ^ nat j) \<le> a * 2 ^ nat (- j)"
proof -
  have "(of_nat (k * (b * 2 ^ nat j)) :: rat) = (of_nat k * 2 powi j * of_nat b) * 2 ^ nat (- j)"
    by (simp only: scaled_rat)
  also have "\<dots> \<le> of_nat a * 2 ^ nat (- j)"
    using assms by (rule mult_right_mono) simp
  also have "\<dots> = of_nat (a * 2 ^ nat (- j))" by simp
  finally show ?thesis by (simp only: of_nat_le_iff)
qed

lemma scaled_eq:
  assumes "(of_nat a :: rat) = of_nat k * 2 powi j * of_nat b"
  shows "a * 2 ^ nat (- j) = k * (b * 2 ^ nat j)"
  using scaled_le [of a k j b] scaled_ge [of k j b a] assms by simp

lemma roundFrac_unfold:
  assumes "a \<noteq> 0" and "max (floorLog2 a b - 52) (- 1074) = e" and "\<not> 971 < e"
    and "roundHalfEven (a * 2 ^ nat (- e)) (b * 2 ^ nat e) = m" and "m \<noteq> 0"
    and "\<not> (e = 971 \<and> m = 2 ^ 53)"
  shows "roundFrac neg a b = fromDyadic neg m e"
  using assms(1,3,5,6) unfolding roundFrac_def Let_def assms(2) assms(4)
  by (simp only: if_False simp_thms)

lemma powi_exp_le: "(2::rat) powi k \<le> 2 powi n \<Longrightarrow> k \<le> n"
proof (rule ccontr)
  assume le: "(2::rat) powi k \<le> 2 powi n" and "\<not> k \<le> n"
  then have "n < k" by simp
  then have "(2::rat) powi n < 2 powi k" by (intro power_int_strict_increasing) simp_all
  with le show False by simp
qed

lemma powi_exp_less: "(2::rat) powi k < 2 powi n \<Longrightarrow> k < n"
proof (rule ccontr)
  assume le: "(2::rat) powi k < 2 powi n" and "\<not> k < n"
  then have "n \<le> k" by simp
  then have "(2::rat) powi n \<le> 2 powi k" by (intro power_int_increasing) simp_all
  with le show False by simp
qed

lemma roundFrac_exact:
  assumes b: "0 < b" and d: "doubleFormat m e"
    and v: "(of_nat a :: rat) = of_nat m * 2 powi e * of_nat b"
  shows "roundFrac neg a b = fromDyadic neg m e"
proof -
  from d have m: "0 < m" and m53: "m \<le> 2 ^ 53" and e1: "- 1074 \<le> e" and e2: "e \<le> 971"
    and top: "\<not> (e = 971 \<and> m = 2 ^ 53)" and sub: "e = - 1074 \<or> 2 ^ 52 \<le> m"
    by (simp_all add: doubleFormat_def)
  have bq: "0 < (of_nat b :: rat)" using b by simp
  have "0 < (of_nat m :: rat) * 2 powi e * of_nat b" using m b by simp
  with v have "0 < (of_nat a :: rat)" by simp
  then have a: "0 < a" by simp
  define L where "L = int (bitLength m) - 1"
  have L1: "2 powi L \<le> (of_nat m :: rat)" and L2: "(of_nat m :: rat) < 2 powi (L + 1)"
    using bitLength_rat [OF m] by (simp_all add: L_def)
  have fl: "floorLog2 a b = L + e"
  proof (rule floorLog2_eq [OF a b])
    have "2 powi (L + e) * (of_nat b :: rat) = (2 powi L * 2 powi e) * of_nat b"
      by (simp add: power_int_add)
    also have "\<dots> \<le> (of_nat m * 2 powi e) * of_nat b"
      using L1 by (intro mult_right_mono) simp_all
    finally show "2 powi (L + e) * (of_nat b :: rat) \<le> of_nat a" by (simp only: v)
    have "(of_nat a :: rat) = (of_nat m * 2 powi e) * of_nat b" by (simp only: v)
    also have "\<dots> < (2 powi (L + 1) * 2 powi e) * of_nat b"
      using L2 bq by (intro mult_strict_right_mono) simp_all
    also have "\<dots> = 2 powi (L + e + 1) * of_nat b"
      by (simp add: power_int_add)
    finally show "(of_nat a :: rat) < 2 powi (L + e + 1) * of_nat b" .
  qed
  show ?thesis
  proof (cases "m = 2 ^ 53")
    case True
    with top e2 have e970: "e \<le> 970" by simp
    from True L2 have "(2::rat) powi 53 < 2 powi (L + 1)" by simp
    then have "53 < L + 1" by (rule powi_exp_less)
    moreover from True L1 have "(2::rat) powi L \<le> 2 powi 53" by simp
    then have "L \<le> 53" by (rule powi_exp_le)
    ultimately have L: "L = 53" by simp
    have v': "(of_nat a :: rat) = of_nat (2 ^ 52) * 2 powi (e + 1) * of_nat b"
      by (simp add: v True power_int_add)
    show ?thesis
    proof (subst roundFrac_unfold [where e = "e + 1" and m = "2 ^ 52"])
      show "a \<noteq> 0" using a by simp
      show "max (floorLog2 a b - 52) (- 1074) = e + 1" using e1 by (simp add: fl L)
      show "\<not> 971 < e + 1" using e970 by simp
      show "roundHalfEven (a * 2 ^ nat (- (e + 1))) (b * 2 ^ nat (e + 1)) = 2 ^ 52"
        unfolding scaled_eq [OF v'] by (rule roundHalfEven_exact) (simp add: b)
      show "(2::nat) ^ 52 \<noteq> 0" by simp
      show "\<not> (e + 1 = 971 \<and> (2::nat) ^ 52 = 2 ^ 53)" by simp
      show "fromDyadic neg (2 ^ 52) (e + 1) = fromDyadic neg m e"
        by (rule fromDyadic_cong) (simp add: True power_int_add)
    qed
  next
    case False
    with m53 have "m < 2 ^ 53" by simp
    then have "(of_nat m :: rat) < of_nat (2 ^ 53)" by (simp only: of_nat_less_iff)
    with L1 have "(2::rat) powi L < 2 powi 53" by simp
    then have L53: "L < 53" by (rule powi_exp_less)
    have ee: "max (L + e - 52) (- 1074) = e"
    proof (cases "e = - 1074")
      case True
      with L53 show ?thesis by simp
    next
      case False
      with sub have "2 ^ 52 \<le> m" by simp
      then have "(of_nat (2 ^ 52) :: rat) \<le> of_nat m" by (simp only: of_nat_le_iff)
      with L2 have "(2::rat) powi 52 < 2 powi (L + 1)" by simp
      then have "52 < L + 1" by (rule powi_exp_less)
      with L53 have "L = 52" by simp
      with e1 show ?thesis by simp
    qed
    show ?thesis
    proof (rule roundFrac_unfold)
      show "a \<noteq> 0" using a by simp
      show "max (floorLog2 a b - 52) (- 1074) = e" using ee by (simp add: fl)
      show "\<not> 971 < e" using e2 by simp
      show "roundHalfEven (a * 2 ^ nat (- e)) (b * 2 ^ nat e) = m"
        unfolding scaled_eq [OF v] by (rule roundHalfEven_exact) (simp add: b)
      show "m \<noteq> 0" using m by simp
      show "\<not> (e = 971 \<and> m = 2 ^ 53)" by (rule top)
    qed
  qed
qed

lemma roundFrac_range:
  assumes b: "0 < b" and r: "roundFrac neg a b = Dec M E"
  shows "(M = 0 \<and> E = 0)
    \<or> (\<exists>m e. doubleFormat m e \<and> e = max (floorLog2 a b - 52) (- 1074)
          \<and> m = roundHalfEven (a * 2 ^ nat (- e)) (b * 2 ^ nat e)
          \<and> (\<forall>s. roundFrac s a b = fromDyadic s m e))"
proof (cases "a = 0")
  case True
  with r show ?thesis by (simp add: roundFrac_def signedZero_def split: if_splits)
next
  case False
  then have a: "0 < a" by simp
  define e where "e = max (floorLog2 a b - 52) (- 1074)"
  define m where "m = roundHalfEven (a * 2 ^ nat (- e)) (b * 2 ^ nat e)"
  have unf: "roundFrac s a b =
      (if 971 < e then signedInfinity s
       else if m = 0 then signedZero s
       else if e = 971 \<and> m = 2 ^ 53 then signedInfinity s
       else fromDyadic s m e)" for s
    using a unfolding roundFrac_def Let_def m_def e_def by simp
  show ?thesis
  proof (cases "m = 0")
    case True
    with r show ?thesis
      unfolding unf by (simp add: signedInfinity_def signedZero_def split: if_splits)
  next
    case m0: False
    from r have e971: "\<not> 971 < e"
      unfolding unf by (auto simp add: signedInfinity_def split: if_splits)
    from r m0 e971 have top: "\<not> (e = 971 \<and> m = 2 ^ 53)"
      unfolding unf by (auto simp add: signedInfinity_def split: if_splits)
    from e971 m0 top have all: "\<forall>s. roundFrac s a b = fromDyadic s m e"
      unfolding unf by (simp only: if_False simp_thms)
    have e1: "- 1074 \<le> e" and e2: "floorLog2 a b - 52 \<le> e" by (simp_all add: e_def)
    have bq: "0 < (of_nat b :: rat)" using b by simp
    have "m \<le> 2 ^ 53"
      unfolding m_def
    proof (rule roundHalfEven_upper)
      show "0 < b * 2 ^ nat e" using b by simp
      from e2 have "floorLog2 a b + 1 \<le> e + 53" by simp
      then have "(2::rat) powi (floorLog2 a b + 1) \<le> 2 powi (e + 53)"
        by (intro power_int_increasing) simp_all
      then have "2 powi (floorLog2 a b + 1) * (of_nat b :: rat) \<le> 2 powi (e + 53) * of_nat b"
        by (intro mult_right_mono) simp_all
      with floorLog2_spec(2) [OF a b] have "(of_nat a :: rat) \<le> 2 powi (e + 53) * of_nat b"
        by simp
      also have "(2::rat) powi (e + 53) = of_nat (2 ^ 53) * 2 powi e"
        by (simp add: power_int_add)
      finally show "a * 2 ^ nat (- e) \<le> 2 ^ 53 * (b * 2 ^ nat e)" by (rule scaled_le)
    qed
    moreover have "e = - 1074 \<or> 2 ^ 52 \<le> m"
    proof (cases "e = - 1074")
      case True
      then show ?thesis by simp
    next
      case False
      then have fl: "floorLog2 a b = e + 52" by (simp add: e_def max_def split: if_splits)
      have "of_nat (2 ^ 52) * 2 powi e * of_nat b = 2 powi (e + 52) * (of_nat b :: rat)"
        by (simp add: power_int_add)
      also have "\<dots> \<le> of_nat a"
        using floorLog2_spec(1) [OF a b] by (simp only: fl)
      finally have "2 ^ 52 * (b * 2 ^ nat e) \<le> a * 2 ^ nat (- e)" by (rule scaled_ge)
      then have "2 ^ 52 \<le> m"
        unfolding m_def using b by (intro roundHalfEven_lower) simp_all
      then show ?thesis by simp
    qed
    ultimately have "doubleFormat m e"
      using m0 e1 e971 top by (simp add: doubleFormat_def)
    with all show ?thesis unfolding m_def e_def by blast
  qed
qed

lemma roundDec_exact:
  assumes d: "doubleFormat m e" and v: "(of_nat N :: rat) * 10 powi E = of_nat m * 2 powi e"
  shows "roundDec neg N E = fromDyadic neg m e"
  unfolding roundDec_alt
proof (rule roundFrac_exact [OF _ d])
  show "0 < (10::nat) ^ nat (- E)" by simp
  show "(of_nat (N * 10 ^ nat E) :: rat) = of_nat m * 2 powi e * of_nat (10 ^ nat (- E))"
    by (simp only: frac_rat v)
qed

lemma roundDec_zero: "roundDec neg 0 E = signedZero neg"
  by (simp add: roundDec_def roundFrac_def)

lemma roundDec_range:
  assumes r: "roundDec neg N E = Dec M' E'"
  shows "(M' = 0 \<and> E' = 0)
    \<or> (\<exists>m e. doubleFormat m e \<and> (\<forall>s. roundDec s N E = fromDyadic s m e))"
proof -
  have b: "0 < (10::nat) ^ nat (- E)" by simp
  from roundFrac_range [OF b r [unfolded roundDec_alt]] show ?thesis
    unfolding roundDec_alt by blast
qed

lemma fromDyadic_Dec:
  assumes r: "fromDyadic neg m e = Dec M E"
  shows "canon M E" and "dec_val M E = (if neg then - 1 else 1) * (of_nat m * 2 powi e)"
  using fromDyadic_val [of neg m e] r by auto

lemma roundDec_Dec:
  assumes r: "roundDec neg N E = Dec M' E'"
  shows roundDec_canon: "canon M' E'"
    and roundDec_sign: "M' \<noteq> 0 \<Longrightarrow> (M' < 0) = neg"
    and roundDec_flip: "M' \<noteq> 0 \<Longrightarrow> roundDec (\<not> neg) N E = Dec (- M') E'"
    and roundDec_idem: "roundDec False (nat \<bar>M'\<bar>) E' = Dec \<bar>M'\<bar> E'"
proof -
  from roundDec_range [OF r] consider
    (zero) "M' = 0" "E' = 0"
    | (dyadic) m e where "doubleFormat m e" "\<forall>s. roundDec s N E = fromDyadic s m e"
    by blast
  then have "canon M' E' \<and> (M' \<noteq> 0 \<longrightarrow> (M' < 0) = neg)
      \<and> (M' \<noteq> 0 \<longrightarrow> roundDec (\<not> neg) N E = Dec (- M') E')
      \<and> roundDec False (nat \<bar>M'\<bar>) E' = Dec \<bar>M'\<bar> E'"
  proof cases
    case zero
    then show ?thesis by (simp add: canon_def roundDec_zero signedZero_def)
  next
    case dyadic
    from dyadic(1) have m: "0 < m" by (simp add: doubleFormat_def)
    from dyadic(2) r have fd: "fromDyadic neg m e = Dec M' E'" by simp
    note c = fromDyadic_Dec(1) [OF fd]
    note sg = fromDyadic_sign [OF fd m]
    have fl: "roundDec (\<not> neg) N E = Dec (- M') E'"
      using dyadic(2) fromDyadic_flip [OF fd] by simp
    have pos: "fromDyadic False m e = Dec \<bar>M'\<bar> E'"
    proof (cases neg)
      case True
      with sg(2) have "M' < 0" by simp
      with fromDyadic_flip [OF fd] True show ?thesis by simp
    next
      case False
      with sg have "0 < M'" by simp
      with fd False show ?thesis by simp
    qed
    have "dec_val \<bar>M'\<bar> E' = of_nat m * 2 powi e"
      using fromDyadic_Dec(2) [OF pos] by simp
    then have "(of_nat (nat \<bar>M'\<bar>) :: rat) * 10 powi E' = of_nat m * 2 powi e"
      by (simp add: dec_val_powi)
    from roundDec_exact [OF dyadic(1) this, of False] pos
    have "roundDec False (nat \<bar>M'\<bar>) E' = Dec \<bar>M'\<bar> E'" by simp
    with c sg fl show ?thesis by simp
  qed
  then show "canon M' E'" and "M' \<noteq> 0 \<Longrightarrow> (M' < 0) = neg"
    and "M' \<noteq> 0 \<Longrightarrow> roundDec (\<not> neg) N E = Dec (- M') E'"
    and "roundDec False (nat \<bar>M'\<bar>) E' = Dec \<bar>M'\<bar> E'"
    by simp_all
qed

lemma roundDec_isDouble: "isDouble (roundDec neg N E)"
  by (cases "roundDec neg N E") (simp_all add: roundDec_canon roundDec_idem)

lemma fromDyadic_nonneg:
  assumes e: "0 \<le> e" and r: "fromDyadic neg m e = Dec M' E'"
  shows "M' = 0 \<or> 0 \<le> E'"
proof -
  define x where "x = (if neg then - int m else int m) * 2 ^ nat e"
  from r e have "mkDec x 0 = Dec M' E'" by (simp add: fromDyadic_def Let_def x_def)
  then have "norm10 x 0 = (M', E')" by (cases "norm10 x 0") (simp add: mkDec_def)
  from norm10_exp_mono [OF this] show ?thesis .
qed

lemma roundHalfEven_1: "roundHalfEven n (Suc 0) = n"
  by (simp add: roundHalfEven_def)

lemma roundDec_whole:
  assumes r: "roundDec neg N 0 = Dec M' E'"
  shows "M' = 0 \<or> 0 \<le> E'"
proof -
  have b: "0 < (1::nat)" by simp
  from r have r': "roundFrac neg N 1 = Dec M' E'" by (simp add: roundDec_def)
  from roundFrac_range [OF b r'] consider
    (zero) "M' = 0"
    | (dyadic) m e where "m = roundHalfEven (N * 2 ^ nat (- e)) (1 * 2 ^ nat e)"
        "\<forall>s. roundFrac s N 1 = fromDyadic s m e"
    by blast
  then show ?thesis
  proof cases
    case zero
    then show ?thesis by simp
  next
    case dyadic
    from dyadic(2) r' have fd: "fromDyadic neg m e = Dec M' E'" by simp
    show ?thesis
    proof (cases "0 \<le> e")
      case True
      from fromDyadic_nonneg [OF True fd] show ?thesis .
    next
      case False
      then have "nat e = 0" by simp
      with dyadic(1) have m: "m = N * 2 ^ nat (- e)" by (simp add: roundHalfEven_1)
      have "(2::rat) ^ nat (- e) * 2 powi e = 1"
        using False by (simp add: power_int_def power_inverse flip: power_mult_distrib)
      then have "(of_nat m :: rat) * 2 powi e = of_nat N * 2 powi 0"
        by (simp add: m mult.assoc)
      from fromDyadic_cong [OF this, of neg] fd have "fromDyadic neg N 0 = Dec M' E'" by simp
      from fromDyadic_nonneg [OF _ this] show ?thesis by simp
    qed
  qed
qed

text \<open>Decimals that are doubles as they stand.\<close>

lemma roundDec_exact_Dec:
  assumes d: "doubleFormat m e" and v: "(of_nat N :: rat) * 10 powi E = of_nat m * 2 powi e"
    and c: "canon (int N) E"
  shows "roundDec neg N E = Dec (if neg then - int N else int N) E"
proof -
  from fromDyadic_val [of neg m e] obtain M' E' where
    fd: "fromDyadic neg m e = Dec M' E'" and c': "canon M' E'"
    and v': "dec_val M' E' = (if neg then - 1 else 1) * (of_nat m * 2 powi e)" by blast
  have "canon (if neg then - int N else int N) E" using c by (simp add: canon_neg)
  moreover have "dec_val (if neg then - int N else int N) E = dec_val M' E'"
    using v v' by (simp add: dec_val_powi)
  ultimately have "(if neg then - int N else int N) = M' \<and> E = E'"
    using c' by (intro canon_unique) simp_all
  with fd roundDec_exact [OF d v, of neg] show ?thesis by simp
qed

lemma roundDec_int:
  assumes N: "0 < N" and lt: "N < 2 ^ 53"
  shows "roundDec neg N 0 = mkDec (if neg then - int N else int N) 0"
proof -
  define L where "L = bitLength N - 1"
  have lo: "2 ^ L \<le> N" using bitLength_lower [OF N] by (simp add: L_def)
  have "N < 2 ^ Suc L"
    using bitLength_upper [of N] bitLength_pos [OF N] by (simp add: L_def)
  then have hi: "N < 2 * 2 ^ L" by simp
  from lo lt have "(2::nat) ^ L < 2 ^ 53" by simp
  then have L: "L < 53" by (simp only: power_strict_increasing_iff rel_simps)
  define k where "k = 52 - L"
  have Lk: "L + k = 52" using L by (simp add: k_def)
  define m where "m = N * 2 ^ k"
  have "2 ^ L * 2 ^ k \<le> N * 2 ^ k" using lo by (intro mult_right_mono) simp_all
  then have "2 ^ (L + k) \<le> m" by (simp only: power_add m_def)
  then have m52: "2 ^ 52 \<le> m" unfolding Lk .
  have "N * 2 ^ k < (2 * 2 ^ L) * 2 ^ k" using hi by (intro mult_strict_right_mono) simp_all
  then have "m < 2 * 2 ^ (L + k)" by (simp only: power_add m_def mult.assoc)
  then have "m < 2 * 2 ^ 52" unfolding Lk .
  then have m53: "m < 2 ^ 53" by simp
  have d: "doubleFormat m (- int k)"
    using m52 m53 by (simp add: doubleFormat_def k_def)
  have "(2::rat) ^ k * 2 powi (- int k) = 1"
    by (simp add: power_int_minus)
  then have v: "(of_nat N :: rat) * 10 powi 0 = of_nat m * 2 powi (- int k)"
    by (simp add: m_def mult.assoc)
  have "(of_nat m :: rat) * 2 powi (- int k) = of_nat N * 2 powi 0"
    using v by simp
  from roundDec_exact [OF d v, of neg] fromDyadic_cong [OF this, of neg]
  show ?thesis by (simp add: fromDyadic_def)
qed

lemma roundDec_small:
  assumes E: "0 \<le> E" and N: "0 < N" and lt: "N * 10 ^ nat E < 2 ^ 53"
  shows "roundDec neg N E = mkDec (if neg then - int N else int N) E"
proof -
  have "(of_nat N :: rat) * 10 powi E = of_nat (N * 10 ^ nat E) * 10 powi 0"
    using E by (simp add: power_int_def)
  then have "roundDec neg N E = roundDec neg (N * 10 ^ nat E) 0" by (rule roundDec_cong)
  also have "\<dots> = mkDec (if neg then - int (N * 10 ^ nat E) else int (N * 10 ^ nat E)) 0"
    using N lt by (intro roundDec_int) simp_all
  also have "\<dots> = mkDec (if neg then - int N else int N) E"
    using E by (intro mkDec_cong) (simp add: dec_val_powi power_int_def)
  finally show ?thesis .
qed

lemma roundDec_1e21: "roundDec False 1 21 = Dec 1 21"
proof -
  have d: "doubleFormat 7629394531250000 17" by (simp add: doubleFormat_def)
  have v: "(of_nat 1 :: rat) * 10 powi 21 = of_nat 7629394531250000 * 2 powi 17" by simp
  have c: "canon (int 1) 21" by (simp add: canon_def)
  from roundDec_exact_Dec [OF d v c, of False] show ?thesis by simp
qed

lemma roundDec_7_5: "roundDec False 75 (- 1) = Dec 75 (- 1)"
proof -
  have d: "doubleFormat 8444249301319680 (- 50)" by (simp add: doubleFormat_def)
  have v: "(of_nat 75 :: rat) * 10 powi (- 1) = of_nat 8444249301319680 * 2 powi (- 50)" by simp
  have c: "canon (int 75) (- 1)" by (simp add: canon_def)
  from roundDec_exact_Dec [OF d v c, of False] show ?thesis by simp
qed

lemma mkDec_canon_shift: "canon m e \<Longrightarrow> mkDec (m * 10 ^ j) (e - int j) = Dec m e"
  by (rule mkDec_eqI) (simp_all add: dec_val_powi power_int_diff)

text \<open>Evaluation on numerals, and the overflow to an infinity.\<close>

lemma bitLength_0: "bitLength 0 = 0"
  by (simp add: bitLength.simps)

lemma bitLength_1: "bitLength (Suc 0) = 1"
  by (simp add: bitLength.simps)

lemma bitLength_numeral: "bitLength (numeral k) = Suc (bitLength (numeral k div 2))"
  by (subst bitLength.simps) simp

lemmas bitLength_eval = bitLength_0 bitLength_1 bitLength_numeral

lemma roundFrac_overflow:
  "0 < a \<Longrightarrow> 1024 \<le> floorLog2 a b \<Longrightarrow> roundFrac neg a b = signedInfinity neg"
  by (simp add: roundFrac_def Let_def)

lemma pow2_le_pow10: "(2::nat) ^ (4 * k) \<le> 10 ^ (2 * k)"
proof -
  have "(2::nat) ^ (4 * k) = 16 ^ k" by (simp add: power_mult)
  also have "\<dots> \<le> 100 ^ k" by (rule power_mono) simp_all
  also have "\<dots> = 10 ^ (2 * k)" by (simp add: power_mult)
  finally show ?thesis .
qed

lemma roundDec_overflow:
  assumes E: "512 \<le> E" and N: "0 < N"
  shows "roundDec neg N E = signedInfinity neg"
proof -
  define k where "k = (256::nat)"
  define n where "n = nat E"
  have k4: "int (4 * k) = 1024" and k2: "2 * k \<le> n" using E by (simp_all add: k_def n_def)
  have "(2::nat) ^ (4 * k) \<le> 10 ^ (2 * k)" by (rule pow2_le_pow10)
  also have "\<dots> \<le> 10 ^ n" using k2 by (intro power_increasing) simp_all
  also have "\<dots> \<le> N * 10 ^ n" using N by simp
  finally have "(of_nat (2 ^ (4 * k)) :: rat) \<le> of_nat (N * 10 ^ n)"
    by (simp only: of_nat_le_iff)
  then have "2 powi int (4 * k) * of_nat 1 \<le> (of_nat (N * 10 ^ n) :: rat)"
    by (simp only: power_int_of_nat of_nat_power of_nat_numeral of_nat_1 mult_1_right)
  then have "2 powi 1024 * of_nat 1 \<le> (of_nat (N * 10 ^ n) :: rat)"
    by (simp only: k4)
  moreover have a: "0 < N * 10 ^ n" using N by simp
  ultimately have "1024 \<le> floorLog2 (N * 10 ^ n) 1"
    by (intro floorLog2_le) simp_all
  from roundFrac_overflow [OF a this, of neg] show ?thesis
    using E by (simp add: roundDec_def n_def)
qed

lemma roundDec_tenth:
  "roundDec False 1 (- 1) = Dec 1000000000000000055511151231257827021181583404541015625 (- 55)"
proof -
  have fl: "floorLog2 (Suc 0) 10 = - 4"
    by (simp add: floorLog2_def bitLength_eval)
  have "roundFrac False (Suc 0) 10 = fromDyadic False 7205759403792794 (- 56)"
  proof (rule roundFrac_unfold)
    show "max (floorLog2 (Suc 0) 10 - 52) (- 1074) = - 56" by (simp add: fl)
    show "roundHalfEven (Suc 0 * 2 ^ nat (- (- 56))) (10 * 2 ^ nat (- 56)) = 7205759403792794"
      by (simp add: roundHalfEven_def)
  qed simp_all
  also have "\<dots> = mkDec (1000000000000000055511151231257827021181583404541015625 * 10 ^ 1)
      (- 55 - int 1)"
    by (simp add: fromDyadic_def)
  also have "\<dots> = Dec 1000000000000000055511151231257827021181583404541015625 (- 55)"
    by (rule mkDec_canon_shift) (simp add: canon_def)
  finally show ?thesis by (simp add: roundDec_def)
qed

lemma roundDec_fifth:
  "roundDec False 2 (- 1) = Dec 200000000000000011102230246251565404236316680908203125 (- 54)"
proof -
  have fl: "floorLog2 2 10 = - 3"
    by (simp add: floorLog2_def bitLength_eval)
  have "roundFrac False 2 10 = fromDyadic False 7205759403792794 (- 55)"
  proof (rule roundFrac_unfold)
    show "max (floorLog2 2 10 - 52) (- 1074) = - 55" by (simp add: fl)
    show "roundHalfEven (2 * 2 ^ nat (- (- 55))) (10 * 2 ^ nat (- 55)) = 7205759403792794"
      by (simp add: roundHalfEven_def)
  qed simp_all
  also have "\<dots> = mkDec (200000000000000011102230246251565404236316680908203125 * 10 ^ 1)
      (- 54 - int 1)"
    by (simp add: fromDyadic_def)
  also have "\<dots> = Dec 200000000000000011102230246251565404236316680908203125 (- 54)"
    by (rule mkDec_canon_shift) (simp add: canon_def)
  finally show ?thesis by (simp add: roundDec_def)
qed

section \<open>Quality assessment: properties\<close>

lemma checkFileSize_bounds:
  "score q - 10 \<le> score (checkFileSize m q) \<and> score (checkFileSize m q) \<le> score q + 20
   \<and> length (issues (checkFileSize m q)) \<le> length (issues q) + 1"
  by (simp add: checkFileSize_def)

lemma checkDimensions_bounds:
  "score q - 15 \<le> score (checkDimensions m q) \<and> score (checkDimensions m q) \<le> score q + 25
   \<and> length (issues (checkDimensions m q)) \<le> length (issues q) + 1"
  by (simp add: checkDimensions_def split: option.split)

lemma checkImageFormat_bounds:
  "score q - 10 \<le> score (checkImageFormat m q) \<and> score (checkImageFormat m q) \<le> score q + 10
   \<and> length (issues (checkImageFormat m q)) \<le> length (issues q) + 1"
  by (simp add: checkImageFormat_def)

lemma qualityChecks_bounds:
  "- 35 \<le> score (qualityChecks m) \<and> score (qualityChecks m) \<le> 55
   \<and> length (issues (qualityChecks m)) \<le> 3"
proof -
  define q0 where "q0 = \<lparr>score = 0, issues = [], suitable = False\<rparr>"
  define q1 where "q1 = checkFileSize m q0"
  define q2 where "q2 = checkDimensions m q1"
  have eq: "qualityChecks m = checkImageFormat m q2"
    by (simp add: qualityChecks_def Let_def q0_def q1_def q2_def)
  have b0: "score q0 = 0" "length (issues q0) = 0" by (simp_all add: q0_def)
  from checkFileSize_bounds [of q0 m] checkDimensions_bounds [of q1 m]
       checkImageFormat_bounds [of q2 m] b0
  show ?thesis unfolding eq q1_def [symmetric] q2_def [symmetric] by linarith
qed

text \<open>
  The reported score always lies in the range 0 to 100, and since the score before the
  offset never exceeds 55, the test \<open>30 \<le> raw\<close> reads on the reported score as
  \<open>80 \<le> score\<close>.
\<close>

lemma assessImageQuality_score_range:
  "0 \<le> score (assessImageQuality m) \<and> score (assessImageQuality m) \<le> 100"
  by (simp add: assessImageQuality_def Let_def)

lemma assessImageQuality_suitable_reported:
  "suitable (assessImageQuality m) =
     (80 \<le> score (assessImageQuality m) \<and> length (issues (assessImageQuality m)) < 3)"
  using qualityChecks_bounds [of m] by (auto simp add: assessImageQuality_def Let_def)

text \<open>
  C4. For every metadata input, \<open>suitable\<close> is true exactly when the score before the
  offset and clamp is at least 30 and fewer than 3 issues were recorded, while the
  reported score is the clamped value \<open>max 0 (min 100 (raw + 50))\<close>.
\<close>

theorem assessImageQuality_suitable_preclamp:
  "suitable (assessImageQuality m) =
     (30 \<le> score (qualityChecks m) \<and> length (issues (qualityChecks m)) < 3)
   \<and> score (assessImageQuality m) = max 0 (min 100 (score (qualityChecks m) + 50))
   \<and> issues (assessImageQuality m) = issues (qualityChecks m)"
  by (simp add: assessImageQuality_def Let_def)

text \<open>
  C5. The two worked examples: 2,000,000 bytes at 1000 by 800 in JPEG scores 100 and is
  suitable; 50,000 bytes at 200 by 200 in an unknown format scores 15 and is not.
\<close>

theorem assessImageQuality_examples:
  "score (assessImageQuality
      \<lparr>url = u, contentType = c, fileSize = num_of_int 2000000, lastModified = lm,
       format = ''JPEG'',
       dims = Some \<lparr>width = num_of_int 1000, height = num_of_int 800,
                    aspectRatio = ''1.00'', estimated = True\<rparr>\<rparr>) = 100
   \<and> suitable (assessImageQuality
      \<lparr>url = u, contentType = c, fileSize = num_of_int 2000000, lastModified = lm,
       format = ''JPEG'',
       dims = Some \<lparr>width = num_of_int 1000, height = num_of_int 800,
                    aspectRatio = ''1.00'', estimated = True\<rparr>\<rparr>)
   \<and> score (assessImageQuality
      \<lparr>url = u, contentType = c, fileSize = num_of_int 50000, lastModified = lm,
       format = ''UNKNOWN'',
       dims = Some \<lparr>width = num_of_int 200, height = num_of_int 200,
                    aspectRatio = ''1.00'', estimated = True\<rparr>\<rparr>) = 15
   \<and> \<not> suitable (assessImageQuality
      \<lparr>url = u, contentType = c, fileSize = num_of_int 50000, lastModified = lm,
       format = ''UNKNOWN'',
       dims = Some \<lparr>width = num_of_int 200, height = num_of_int 200,
                    aspectRatio = ''1.00'', estimated = True\<rparr>\<rparr>)"
  by (simp add: assessImageQuality_def qualityChecks_def checkFileSize_def checkDimensions_def
      checkImageFormat_def Let_def num_of_int_def mkDec_def norm10.simps num_gt_def)

section \<open>URL validation: properties\<close>

text \<open>
  C9. \<open>validatePhotoUrls\<close> fails with \<open>EMPTY_ARRAY\<close> on the empty array, with
  \<open>TOO_MANY_PHOTOS\<close> on every array of more than 5 elements, whatever the elements
  are, and with \<open>INVALID_INPUT\<close> on every value that is not an array.
\<close>

theorem validatePhotoUrls_shape_errors:
  "\<not> vr_success (validatePhotoUrls isURL (JArr []))
   \<and> vr_error (validatePhotoUrls isURL (JArr [])) = Some ''EMPTY_ARRAY''
   \<and> (5 < length urls \<longrightarrow>
        \<not> vr_success (validatePhotoUrls isURL (JArr urls))
        \<and> vr_error (validatePhotoUrls isURL (JArr urls)) = Some ''TOO_MANY_PHOTOS'')
   \<and> (\<not> isArray v \<longrightarrow>
        \<not> vr_success (validatePhotoUrls isURL v)
        \<and> vr_error (validatePhotoUrls isURL v) = Some ''INVALID_INPUT'')"
proof (intro conjI impI)
  show "\<not> vr_success (validatePhotoUrls isURL (JArr []))"
    and "vr_error (validatePhotoUrls isURL (JArr [])) = Some ''EMPTY_ARRAY''"
    by (simp_all add: validatePhotoUrls_def)
next
  assume "5 < length urls"
  then show "\<not> vr_success (validatePhotoUrls isURL (JArr urls))"
    and "vr_error (validatePhotoUrls isURL (JArr urls)) = Some ''TOO_MANY_PHOTOS''"
    by (auto simp add: validatePhotoUrls_def)
next
  assume "\<not> isArray v"
  then show "\<not> vr_success (validatePhotoUrls isURL v)"
    and "vr_error (validatePhotoUrls isURL v) = Some ''INVALID_INPUT''"
    by (cases v; simp add: validatePhotoUrls_def)+
qed

theorem validatePhotoUrls_shape_errors_witness:
  "5 < length (replicate 6 (JStr ''https://example.com/a.jpg''))
   \<and> \<not> vr_success (validatePhotoUrls (\<lambda>u. True) (JArr (replicate 6 (JStr ''https://example.com/a.jpg''))))
   \<and> vr_error (validatePhotoUrls (\<lambda>u. True) (JArr (replicate 6 (JStr ''https://example.com/a.jpg''))))
       = Some ''TOO_MANY_PHOTOS''
   \<and> \<not> isArray (JObj [(''length'', JNum (Dec 6 0))])
   \<and> \<not> vr_success (validatePhotoUrls (\<lambda>u. True) (JObj [(''length'', JNum (Dec 6 0))]))
   \<and> vr_error (validatePhotoUrls (\<lambda>u. True) (JObj [(''length'', JNum (Dec 6 0))])) = Some ''INVALID_INPUT''"
  using validatePhotoUrls_shape_errors
    [of "\<lambda>u. True" "replicate 6 (JStr ''https://example.com/a.jpg'')" "JObj [(''length'', JNum (Dec 6 0))]"]
  by simp

section \<open>Formatting photos: properties\<close>

lemma formatEach_acc:
  "formatEach axios ps k (fs, es) =
     (fs @ fst (formatEach axios ps k ([], [])), es @ snd (formatEach axios ps k ([], [])))"
proof (induction ps arbitrary: k fs es)
  case Nil
  show ?case by simp
next
  case (Cons p ps)
  show ?case
  proof (cases "formatPhoto (axios k (originalUrl p)) p")
    case (Inl e)
    then show ?thesis
      using Cons.IH [of "k + 1" fs "es @ [e]"] Cons.IH [of "k + 1" "[]" "[e]"] by simp
  next
    case (Inr f)
    then show ?thesis
      using Cons.IH [of "k + 1" "fs @ [f]" es] Cons.IH [of "k + 1" "[f]" "[]"] by simp
  qed
qed

lemma formatPhoto_Inl_iff:
  "isl (formatPhoto outcome p) = (\<not> accessible (verifyPhotoAccessibility outcome))"
  by (cases "verifyPhotoAccessibility outcome")
     (simp_all add: formatPhoto_def extractPhotoMetadata_def Let_def)

lemma formatEach_partition:
  "map Inr (fst (formatEach axios ps k ([], []))) =
     filter (\<lambda>x. \<not> isl x) (map (\<lambda>(i, p). formatPhoto (axios i (originalUrl p)) p) (enumerate k ps))
   \<and> map Inl (snd (formatEach axios ps k ([], []))) =
     filter isl (map (\<lambda>(i, p). formatPhoto (axios i (originalUrl p)) p) (enumerate k ps))"
proof (induction ps arbitrary: k)
  case Nil
  show ?case by simp
next
  case (Cons p ps)
  show ?case
  proof (cases "formatPhoto (axios k (originalUrl p)) p")
    case (Inl e)
    then show ?thesis
      using Cons.IH [of "Suc k"] formatEach_acc [of axios ps "Suc k" "[]" "[e]"] by simp
  next
    case (Inr f)
    then show ?thesis
      using Cons.IH [of "Suc k"] formatEach_acc [of axios ps "Suc k" "[f]" "[]"] by simp
  qed
qed

lemma attempts_failed_count:
  "length (filter isl (attempts axios ps)) =
     length (filter (\<lambda>a. \<not> accessible a) (probes axios ps))"
  by (simp add: attempts_def probes_def filter_map o_def case_prod_unfold formatPhoto_Inl_iff)

lemma attempts_length: "length (attempts axios ps) = length ps"
  by (simp add: attempts_def)

lemma formatEach_lengths:
  "length (fst (formatEach axios ps 0 ([], []))) = length (filter (\<lambda>x. \<not> isl x) (attempts axios ps))"
  "length (snd (formatEach axios ps 0 ([], []))) = length (filter isl (attempts axios ps))"
  using formatEach_partition [of axios ps 0, THEN conjunct1, THEN arg_cong, of length]
        formatEach_partition [of axios ps 0, THEN conjunct2, THEN arg_cong, of length]
  by (simp_all add: attempts_def)

lemma formatPhotosForAI_nonempty:
  assumes "ps \<noteq> []"
  shows "formatPhotosForAI axios ps =
    Inr \<lparr>pr_photos = fst (formatEach axios ps 0 ([], [])),
         pr_summary =
           \<lparr>totalPhotos = length ps,
            processedPhotos = length (fst (formatEach axios ps 0 ([], []))),
            failedPhotos = length (snd (formatEach axios ps 0 ([], []))),
            aiCompatiblePhotos = length (filter aiCompatible (fst (formatEach axios ps 0 ([], [])))),
            averageQuality =
              (if length (fst (formatEach axios ps 0 ([], []))) > 0 then
                 Math_round (XFin (real_of_int (sum_list (map (\<lambda>p. score (fp_quality p))
                     (fst (formatEach axios ps 0 ([], [])))))
                   / real (length (fst (formatEach axios ps 0 ([], []))))))
               else num_of_int 0),
            recommendedForAnalysis =
              length (filter (\<lambda>p. aiCompatible p \<and> 60 \<le> score (fp_quality p))
                (fst (formatEach axios ps 0 ([], []))))\<rparr>,
         pr_processingErrors =
           (if length (snd (formatEach axios ps 0 ([], []))) > 0
            then Some (snd (formatEach axios ps 0 ([], []))) else None),
         readyForAI =
           (length (filter (\<lambda>p. aiCompatible p \<and> 60 \<le> score (fp_quality p))
                (fst (formatEach axios ps 0 ([], [])))) > 0)\<rparr>"
  using assms by (simp add: formatPhotosForAI_def Let_def split: prod.split)

lemma filter_length_pos_list_ex: "(filter P xs \<noteq> []) = list_ex P xs"
  by (induction xs) auto

text \<open>
  C6. With three validated photos of which exactly one fails its accessibility probe, the
  call succeeds: two photos are processed and are the formatted entries of the two
  accessible photos, in order; the one failure is the single entry of the error list;
  and \<open>readyForAI\<close> holds exactly when one of the two processed entries is
  compatible with a score of at least 60.
\<close>

theorem formatPhotosForAI_isolates_failure:
  assumes three: "length validatedPhotos = 3"
    and one: "length (filter (\<lambda>a. \<not> accessible a) (probes axios validatedPhotos)) = 1"
  shows "\<exists>r. formatPhotosForAI axios validatedPhotos = Inr r
     \<and> totalPhotos (pr_summary r) = 3
     \<and> processedPhotos (pr_summary r) = 2
     \<and> failedPhotos (pr_summary r) = 1
     \<and> map Inr (pr_photos r) = filter (\<lambda>x. \<not> isl x) (attempts axios validatedPhotos)
     \<and> (\<exists>e. pr_processingErrors r = Some [e]
              \<and> [Inl e] = filter isl (attempts axios validatedPhotos))
     \<and> readyForAI r = list_ex (\<lambda>p. aiCompatible p \<and> 60 \<le> score (fp_quality p)) (pr_photos r)"
proof -
  let ?fs = "fst (formatEach axios validatedPhotos 0 ([], []))"
  let ?es = "snd (formatEach axios validatedPhotos 0 ([], []))"
  from three have ne: "validatedPhotos \<noteq> []" by auto
  have part:
    "map Inr ?fs = filter (\<lambda>x. \<not> isl x) (attempts axios validatedPhotos)"
    "map Inl ?es = filter isl (attempts axios validatedPhotos)"
    using formatEach_partition [of axios validatedPhotos 0] by (simp_all add: attempts_def)
  have failed: "length ?es = 1"
    using formatEach_lengths(2) [of axios validatedPhotos] attempts_failed_count [of axios validatedPhotos] one
    by simp
  have "length (filter (\<lambda>x. \<not> isl x) (attempts axios validatedPhotos))
        + length (filter isl (attempts axios validatedPhotos)) = length (attempts axios validatedPhotos)"
    using sum_length_filter_compl [of isl "attempts axios validatedPhotos"] by simp
  then have processed: "length ?fs = 2"
    using formatEach_lengths [of axios validatedPhotos] failed three attempts_length [of axios validatedPhotos]
    by simp
  from failed obtain e where e: "?es = [e]"
    by (cases ?es) auto
  show ?thesis
    unfolding formatPhotosForAI_nonempty [OF ne]
    using part processed failed e three
    by (simp add: filter_length_pos_list_ex)
qed

lemma example_probes:
  "probes example_axios example_photos =
     [Accessible ''image/jpeg'' (Dec 3 5) None None,
      NotAccessible ''TIMEOUT'' None ''Photo accessibility check timed out'',
      Accessible ''image/jpeg'' (Dec 3 5) None None]"
  by (simp add: probes_def example_axios_def example_photos_def verifyPhotoAccessibility_def
      parseIntStr_def Let_def trimStart_def isWhiteSpace_def startsWith_def isRadixDigit_def
      digitVal_def radixValue_def roundDec_small mkDec_def norm10.simps num_of_int_def
      num_gt_def dec_val_def)

theorem formatPhotosForAI_isolates_failure_witness:
  "length example_photos = 3
   \<and> length (filter (\<lambda>a. \<not> accessible a) (probes example_axios example_photos)) = 1
   \<and> (\<exists>r. formatPhotosForAI example_axios example_photos = Inr r
     \<and> totalPhotos (pr_summary r) = 3
     \<and> processedPhotos (pr_summary r) = 2
     \<and> failedPhotos (pr_summary r) = 1
     \<and> map Inr (pr_photos r) = filter (\<lambda>x. \<not> isl x) (attempts example_axios example_photos)
     \<and> (\<exists>e. pr_processingErrors r = Some [e]
              \<and> [Inl e] = filter isl (attempts example_axios example_photos))
     \<and> readyForAI r = list_ex (\<lambda>p. aiCompatible p \<and> 60 \<le> score (fp_quality p)) (pr_photos r))"
proof -
  have three: "length example_photos = 3"
    by (simp add: example_photos_def)
  have one: "length (filter (\<lambda>a. \<not> accessible a) (probes example_axios example_photos)) = 1"
    by (simp add: example_probes)
  from formatPhotosForAI_isolates_failure [OF three one] three one show ?thesis
    by blast
qed

text \<open>
  C10. When every photo of a non-empty list fails its accessibility probe, the call still
  succeeds, with nothing processed, an average quality of 0, nothing recommended for
  analysis and \<open>readyForAI\<close> false.
\<close>

theorem formatPhotosForAI_all_fail:
  assumes ne: "validatedPhotos \<noteq> []"
    and all: "list_all (\<lambda>a. \<not> accessible a) (probes axios validatedPhotos)"
  shows "\<exists>r. formatPhotosForAI axios validatedPhotos = Inr r
     \<and> processedPhotos (pr_summary r) = 0
     \<and> failedPhotos (pr_summary r) = length validatedPhotos
     \<and> averageQuality (pr_summary r) = Dec 0 0
     \<and> recommendedForAnalysis (pr_summary r) = 0
     \<and> \<not> readyForAI r"
proof -
  let ?fs = "fst (formatEach axios validatedPhotos 0 ([], []))"
  let ?es = "snd (formatEach axios validatedPhotos 0 ([], []))"
  have "filter (\<lambda>a. \<not> accessible a) (probes axios validatedPhotos) = probes axios validatedPhotos"
    using all by (simp add: list_all_iff)
  then have failed: "length ?es = length validatedPhotos"
    using formatEach_lengths(2) [of axios validatedPhotos] attempts_failed_count [of axios validatedPhotos]
    by (simp add: probes_def)
  have "length (filter (\<lambda>x. \<not> isl x) (attempts axios validatedPhotos))
        + length (filter isl (attempts axios validatedPhotos)) = length (attempts axios validatedPhotos)"
    using sum_length_filter_compl [of isl "attempts axios validatedPhotos"] by simp
  then have "length ?fs = 0"
    using formatEach_lengths [of axios validatedPhotos] failed attempts_length [of axios validatedPhotos]
    by simp
  then have none: "?fs = []" by simp
  show ?thesis
    unfolding formatPhotosForAI_nonempty [OF ne]
    using none failed ne
    by (simp add: num_of_int_def mkDec_def norm10.simps)
qed

theorem formatPhotosForAI_all_fail_witness:
  "example_photos \<noteq> []
   \<and> list_all (\<lambda>a. \<not> accessible a) (probes (\<lambda>k u. BadStatus 404 ''Not Found'') example_photos)
   \<and> (\<exists>r. formatPhotosForAI (\<lambda>k u. BadStatus 404 ''Not Found'') example_photos = Inr r
     \<and> processedPhotos (pr_summary r) = 0
     \<and> failedPhotos (pr_summary r) = length example_photos
     \<and> averageQuality (pr_summary r) = Dec 0 0
     \<and> recommendedForAnalysis (pr_summary r) = 0
     \<and> \<not> readyForAI r)"
proof -
  have ne: "example_photos \<noteq> []"
    by (simp add: example_photos_def)
  have all: "list_all (\<lambda>a. \<not> accessible a)
      (probes (\<lambda>k u. BadStatus 404 ''Not Found'') example_photos)"
    by (simp add: probes_def example_photos_def verifyPhotoAccessibility_def)
  from formatPhotosForAI_all_fail [OF ne all] ne all show ?thesis
    by blast
qed

section \<open>Dimension estimate: properties\<close>




section \<open>Profile validation: properties\<close>

lemma numToString_13: "numToString (num_of_int 13) = ''13''"
  by (simp add: numToString_def shortest_def roundDec_small num_of_int_def mkDec_def
      norm10.simps posToString_def show_nat.simps digit_char_def Let_def)

lemma numToString_120: "numToString (num_of_int 120) = ''120''"
  by (simp add: numToString_def shortest_def roundDec_small num_of_int_def mkDec_def
      norm10.simps posToString_def show_nat.simps digit_char_def Let_def)

lemma num_lt_gt_excl: "num_lt x (num_of_int 13) \<Longrightarrow> num_gt x (num_of_int 120) \<Longrightarrow> False"
  by (cases x) (simp_all add: num_gt_def num_of_int_def mkDec_def norm10.simps dec_val_def)

lemma checkField_age:
  "checkField ageRule v \<in>
     {Inr [''Missing required field: age''], Inr [], Inr [''Field age must be a number.''],
      Inr [''Field age must be at least 13.''], Inr [''Field age must be at most 120.'']}"
  using num_lt_gt_excl [of "numOf v"]
  by (auto simp add: checkField_def ageRule_def arrayCheck_def stringTypeCheck_def numberCheck_def
      allowedCheck_def minLengthCheck_def numToString_13 numToString_120)

lemma validateFields_Inr:
  "validateFields rs pd acc = Inr errs \<Longrightarrow>
     errs = acc @ concat (map (\<lambda>r. projr (checkField r (getProp pd (key r)))) rs)
     \<and> list_all (\<lambda>r. \<not> isl (checkField r (getProp pd (key r)))) rs"
proof (induction rs arbitrary: acc)
  case Nil
  then show ?case by simp
next
  case (Cons r rs)
  show ?case
  proof (cases "checkField r (getProp pd (key r))")
    case (Inl e)
    with Cons.prems show ?thesis by simp
  next
    case (Inr es)
    with Cons.prems have "validateFields rs pd (acc @ es) = Inr errs" by simp
    from Cons.IH [OF this] Inr show ?thesis by simp
  qed
qed

lemma checkField_messages:
  assumes "checkField r v = Inr es" and "e \<in> set es"
  shows "e = ''Missing required field: '' @ key r \<or> (\<exists>t. e = ''Field '' @ key r @ t)"
  using assms
  by (auto simp add: checkField_def stringTypeCheck_def numberCheck_def arrayCheck_def
      allowedCheck_def minLengthCheck_def Let_def
      split: if_splits option.splits sum.splits jsval.splits)

lemma age_message_origin:
  assumes run: "validateFields requiredFields pd [] = Inr errs"
    and e: "e \<in> set errs"
    and age: "\<exists>t. e = ''Field age '' @ t"
  shows "\<exists>es. checkField ageRule (getProp pd ''age'') = Inr es \<and> e \<in> set es"
proof -
  from validateFields_Inr [OF run]
  have errs: "errs = concat (map (\<lambda>r. projr (checkField r (getProp pd (key r)))) requiredFields)"
    and ok: "list_all (\<lambda>r. \<not> isl (checkField r (getProp pd (key r)))) requiredFields"
    by simp_all
  from e errs obtain r where r: "r \<in> set requiredFields"
    and er: "e \<in> set (projr (checkField r (getProp pd (key r))))"
    by auto
  from ok r have "\<not> isl (checkField r (getProp pd (key r)))"
    by (simp add: list_all_iff)
  then obtain es where es: "checkField r (getProp pd (key r)) = Inr es"
    by (cases "checkField r (getProp pd (key r))") auto
  with er have mem: "e \<in> set es" by simp
  from checkField_messages [OF es mem] age
  have "key r = ''age''"
    using r by (auto simp add: requiredFields_def)
  with r have "r = ageRule"
    by (auto simp add: requiredFields_def ageRule_def)
  with es mem show ?thesis by (auto simp add: ageRule_def)
qed

lemma age_checks_exclusive:
  assumes res: "validateProfileData pd = Inr (Invalid errs)"
    and num: "''Field age must be a number.'' \<in> set errs"
    and rng: "''Field age must be at least 13.'' \<in> set errs
            \<or> ''Field age must be at most 120.'' \<in> set errs"
  shows False
proof -
  from num have "errs \<noteq> [''Profile data must be an object.'']" by auto
  with res have run: "validateFields requiredFields pd [] = Inr errs"
    by (auto simp add: validateProfileData_def split: if_splits sum.splits)
  from rng obtain e where e: "e \<in> set errs"
    and e_range: "e = ''Field age must be at least 13.'' \<or> e = ''Field age must be at most 120.''"
    by auto
  from age_message_origin [OF run num]
  obtain es where es: "checkField ageRule (getProp pd ''age'') = Inr es"
    and num': "''Field age must be a number.'' \<in> set es"
    by auto
  from age_message_origin [OF run e] e_range
  obtain es' where es': "checkField ageRule (getProp pd ''age'') = Inr es'" and range: "e \<in> set es'"
    by auto
  from es es' have same: "es' = es" by simp
  from checkField_age [of "getProp pd ''age''"] es num' range e_range same
  show False by auto
qed

lemma example_profile_result:
  "validateProfileData example_profile = Inr (Invalid [''Field age must be a number.''])"
  by (simp add: validateProfileData_def example_profile_def requiredFields_def checkField_def
      stringTypeCheck_def numberCheck_def arrayCheck_def allowedCheck_def minLengthCheck_def
      trim_def isWhiteSpace_def)

text \<open>
  C2, as amended. The range checks of the \<open>age\<close> field are not independent of its type
  check: for every input record, the messages returned never hold both
  "Field age must be a number." and one of the two range messages of \<open>age\<close>.
\<close>

theorem validateProfileData_age_checks_exclusive:
  assumes "validateProfileData pd = Inr (Invalid errs)"
  shows "\<not> (''Field age must be a number.'' \<in> set errs
           \<and> (''Field age must be at least 13.'' \<in> set errs
              \<or> ''Field age must be at most 120.'' \<in> set errs))"
proof
  assume "''Field age must be a number.'' \<in> set errs
           \<and> (''Field age must be at least 13.'' \<in> set errs
              \<or> ''Field age must be at most 120.'' \<in> set errs)"
  with assms show False using age_checks_exclusive [of pd errs] by blast
qed

theorem validateProfileData_age_checks_exclusive_witness:
  "validateProfileData example_profile = Inr (Invalid [''Field age must be a number.''])
   \<and> \<not> (''Field age must be a number.'' \<in> set [''Field age must be a number.'']
         \<and> (''Field age must be at least 13.'' \<in> set [''Field age must be a number.'']
            \<or> ''Field age must be at most 120.'' \<in> set [''Field age must be a number.'']))"
  using validateProfileData_age_checks_exclusive [OF example_profile_result] example_profile_result
  by blast

text \<open>
  The claim as stated asks for an input on which the \<open>age\<close> field yields both messages;
  there is none.
\<close>

theorem validateProfileData_age_both_counterexample:
  "\<not> (\<exists>pd errs. validateProfileData pd = Inr (Invalid errs)
        \<and> ''Field age must be a number.'' \<in> set errs
        \<and> (''Field age must be at least 13.'' \<in> set errs
           \<or> ''Field age must be at most 120.'' \<in> set errs))"
  using age_checks_exclusive by blast

section \<open>The route: properties\<close>

lemma validateAPIRequest_truthy: "\<not> falsy (validateAPIRequest data)"
  by (simp add: validateAPIRequest_def)

lemma buildChainOfThoughtPrompt_payload:
  "buildChainOfThoughtPrompt
     (JObj [(''profileData'', a), (''processedAnswers'', b), (''photos'', c)]) photoAnalysis =
   Inl (TypeError ''Cannot read properties of undefined (reading 'join')'')"
  by (simp add: buildChainOfThoughtPrompt_def bindE_def readProp_def callJoin_def)

lemma generateRecommendations_payload:
  "generateRecommendations llm
     (JObj [(''profileData'', a), (''processedAnswers'', b), (''photos'', c)]) photoAnalysis =
   (Inl (Error ''API_ERROR: Cannot read properties of undefined (reading 'join')''), [])"
  by (simp add: generateRecommendations_def buildChainOfThoughtPrompt_payload handleAIError_def)

lemma recommendationsHandler_fails:
  "fst (recommendationsHandler isURL llm user req) = internalError
   \<and> list_all (\<lambda>e. case e of ModelRequest p \<Rightarrow> False | RecommendationCall x \<Rightarrow> True)
        (snd (recommendationsHandler isURL llm user req))"
  by (simp add: recommendationsHandler_def Let_def generateRecommendations_payload
      split: sum.split)

lemma post_apirecommendations_never_400:
  "status (fst (post_apirecommendations verifyIdToken isURL llm req)) \<in> {401, 500}"
proof (cases "requireAuth verifyIdToken req")
  case (Inl denied)
  then have "status denied = 401"
    by (auto simp add: requireAuth_def Let_def split: option.splits if_splits)
  with Inl show ?thesis by (simp add: post_apirecommendations_def)
next
  case (Inr user)
  then show ?thesis
    using recommendationsHandler_fails [of isURL llm user req]
    by (simp add: post_apirecommendations_def validateAPIRequest_truthy internalError_def)
qed

text \<open>
  C1. The claim asks for a 400 response and no recommendation call when the body fails
  the schema. The validation step tests the object that \<open>validateAPIRequest\<close> returns,
  not its \<open>error\<close>, so it always goes on to the handler: with a valid token and the
  body \<open>{}\<close>, which the schema rejects, the recommendation engine is called and the
  response is 500 \<open>INTERNAL_ERROR\<close>.
\<close>

theorem post_apirecommendations_invalid_body:
  "\<not> schemaAccepts (JObj [])
   \<and> post_apirecommendations (\<lambda>t. Some (JObj [(''uid'', JStr ''u1'')])) isURL llm
       \<lparr>authorization = Some ''Bearer token'', body = JObj []\<rparr> =
     (\<lparr>status = 500, json = JObj [(''error'', JStr ''INTERNAL_ERROR'')]\<rparr>,
      [RecommendationCall
        (JObj [(''profileData'', JUndefined),
               (''processedAnswers'', JObj [(''error'', JStr ''Answers must be an object.'')]),
               (''photos'',
                JObj [(''success'', JBool False), (''error'', JStr ''INVALID_INPUT''),
                      (''message'', JStr ''Photo URLs must be provided as an array'')])])])"
  by (simp add: schemaAccepts_def userIdRule_def post_apirecommendations_def requireAuth_def
      startsWith_def validateAPIRequest_def recommendationsHandler_def Let_def
      processQuestionnaireAnswers_def validatePhotoUrls_def validationObject_def optProp_def
      generateRecommendations_payload internalError_def)

section \<open>Printing and parsing numbers: properties\<close>

lemma digitVal_nth: "k < 10 \<Longrightarrow> digitVal (''0123456789'' ! k) = Some k"
proof -
  assume "k < 10"
  then have "k = 0 \<or> k = 1 \<or> k = 2 \<or> k = 3 \<or> k = 4 \<or> k = 5 \<or> k = 6
      \<or> k = 7 \<or> k = 8 \<or> k = 9"
    by arith
  then show ?thesis
    by (elim disjE) (simp_all add: digitVal_def)
qed

lemma digitVal_digit_char: "digitVal (digit_char d) = Some (d mod 10)"
  by (simp add: digit_char_def digitVal_nth)

lemma isDigit_digit_char: "isDigit (digit_char d)"
  by (simp add: isDigit_def isRadixDigit_def digitVal_digit_char)

lemma show_nat_digits: "list_all isDigit (show_nat n)"
proof (induction n rule: show_nat.induct)
  case (1 n)
  then show ?case
    by (subst show_nat.simps) (simp add: isDigit_digit_char)
qed

lemma show_nat_nonempty: "show_nat n \<noteq> []"
  by (subst show_nat.simps) simp

lemma radixValue_snoc:
  "radixValue R (z @ [c]) = radixValue R z * R + (case digitVal c of None \<Rightarrow> 0 | Some d \<Rightarrow> d)"
  by (simp add: radixValue_def)

lemma radixValue_show_nat: "radixValue 10 (show_nat n) = n"
proof (induction n rule: show_nat.induct)
  case (1 n)
  show ?case
  proof (cases "n < 10")
    case True
    then show ?thesis
      by (subst show_nat.simps) (simp add: radixValue_def digitVal_digit_char)
  next
    case False
    with 1 have "radixValue 10 (show_nat (n div 10)) = n div 10" by simp
    with False show ?thesis
      by (subst show_nat.simps) (simp add: radixValue_snoc digitVal_digit_char)
  qed
qed

lemma radixValue_append:
  "radixValue R (xs @ ys) = radixValue R xs * R ^ length ys + radixValue R ys"
proof (induction ys rule: rev_induct)
  case Nil
  show ?case by (simp add: radixValue_def)
next
  case (snoc y ys)
  have "radixValue R (xs @ ys @ [y]) = radixValue R ((xs @ ys) @ [y])" by simp
  also have "\<dots> = radixValue R (xs @ ys) * R + (case digitVal y of None \<Rightarrow> 0 | Some d \<Rightarrow> d)"
    by (rule radixValue_snoc)
  finally show ?case
    using snoc by (simp add: radixValue_snoc algebra_simps)
qed

lemma digitVal_zero: "digitVal (CHR ''0'') = Some 0"
  by (simp add: digitVal_def)

lemma radixValue_zeros: "radixValue 10 (replicate j (CHR ''0'')) = 0"
proof (induction j)
  case 0
  show ?case by (simp add: radixValue_def)
next
  case (Suc j)
  have "replicate (Suc j) (CHR ''0'') = replicate j (CHR ''0'') @ [CHR ''0'']"
    by (simp add: replicate_append_same)
  then show ?case
    using Suc by (simp only: radixValue_snoc digitVal_zero) simp
qed

lemma isDigit_zero: "isDigit (CHR ''0'')"
  by (simp add: isDigit_def isRadixDigit_def digitVal_def)

lemma not_isDigit_marks:
  "\<not> isDigit (CHR ''.'')" "\<not> isDigit (CHR ''e'')" "\<not> isDigit (CHR ''-'')" "\<not> isDigit (CHR ''+'')"
  by (simp_all add: isDigit_def isRadixDigit_def digitVal_def)

lemma takeWhile_digits_stop:
  "list_all isDigit ds \<Longrightarrow> \<not> isDigit c \<Longrightarrow> takeWhile isDigit (ds @ c # rest) = ds"
  by (induction ds) simp_all

lemma dropWhile_digits_stop:
  "list_all isDigit ds \<Longrightarrow> \<not> isDigit c \<Longrightarrow> dropWhile isDigit (ds @ c # rest) = c # rest"
  by (induction ds) simp_all

lemma takeWhile_digits_all: "list_all isDigit ds \<Longrightarrow> takeWhile isDigit ds = ds"
  by (induction ds) simp_all

lemma dropWhile_digits_all: "list_all isDigit ds \<Longrightarrow> dropWhile isDigit ds = []"
  by (induction ds) simp_all

lemma not_ws_digit: "isDigit c \<Longrightarrow> \<not> isWhiteSpace c"
  by (auto simp add: isDigit_def isRadixDigit_def digitVal_def isWhiteSpace_def Let_def
      split: if_splits option.splits)

lemma parseFloatStr_core:
  "parseFloatStr s =
     (let S = trimStart s;
          negative = startsWith S ''-'';
          S = (if startsWith S ''+'' \<or> startsWith S ''-'' then drop 1 S else S)
      in if startsWith S ''Infinity'' then (if negative then NegInf else PosInf)
         else floatCore negative S)"
  by (simp add: parseFloatStr_def floatCore_def Let_def)

lemma startsWith_Cons1 [simp]: "startsWith (c # s) [c'] = (c = c')"
  by (simp add: startsWith_def)

lemma startsWith_Nil1 [simp]: "startsWith [] [c'] = False"
  by (simp add: startsWith_def)

lemma parseExponent_Nil [simp]: "parseExponent [] = 0"
  by (simp add: parseExponent_def)

lemma parseExponent_expo:
  "parseExponent (''e'' @ (if ex < 0 then ''-'' else ''+'') @ show_nat (nat \<bar>ex\<bar>)) = ex"
proof -
  obtain d ds where ds: "show_nat (nat \<bar>ex\<bar>) = d # ds"
    using show_nat_nonempty [of "nat \<bar>ex\<bar>"] by (cases "show_nat (nat \<bar>ex\<bar>)") auto
  have dig: "list_all isDigit (d # ds)"
    using show_nat_digits [of "nat \<bar>ex\<bar>"] ds by simp
  have val: "radixValue 10 (d # ds) = nat \<bar>ex\<bar>"
    using radixValue_show_nat [of "nat \<bar>ex\<bar>"] ds by simp
  from dig have d: "d \<noteq> CHR ''-''" "d \<noteq> CHR ''+''"
    using not_isDigit_marks by auto
  show ?thesis
    using takeWhile_digits_all [OF dig] val d
    by (simp add: parseExponent_def ds Let_def)
qed

lemma floatCore_int:
  assumes "list_all isDigit ip" and "ip \<noteq> []"
  shows "floatCore neg ip = roundDec neg (radixValue 10 ip) 0"
  using assms
  by (simp add: floatCore_def Let_def takeWhile_digits_all dropWhile_digits_all)

lemma floatCore_point:
  assumes ip: "list_all isDigit ip" and fp: "list_all isDigit fp" and ne: "ip \<noteq> []"
  shows "floatCore neg (ip @ CHR ''.'' # fp) =
     roundDec neg (radixValue 10 (ip @ fp)) (- int (length fp))"
  using ne
  by (simp add: floatCore_def Let_def
      takeWhile_digits_stop [OF ip not_isDigit_marks(1)]
      dropWhile_digits_stop [OF ip not_isDigit_marks(1)]
      takeWhile_digits_all [OF fp] dropWhile_digits_all [OF fp])

lemma floatCore_exp:
  assumes ip: "list_all isDigit ip" and ne: "ip \<noteq> []"
  shows "floatCore neg (ip @ CHR ''e'' # ep) =
     roundDec neg (radixValue 10 ip) (parseExponent (CHR ''e'' # ep))"
  using ne
  by (simp add: floatCore_def Let_def
      takeWhile_digits_stop [OF ip not_isDigit_marks(2)]
      dropWhile_digits_stop [OF ip not_isDigit_marks(2)])

lemma floatCore_point_exp:
  assumes ip: "list_all isDigit ip" and fp: "list_all isDigit fp" and ne: "ip \<noteq> []"
  shows "floatCore neg (ip @ CHR ''.'' # fp @ CHR ''e'' # ep) =
     roundDec neg (radixValue 10 (ip @ fp)) (parseExponent (CHR ''e'' # ep) - int (length fp))"
  using ne
  by (simp add: floatCore_def Let_def
      takeWhile_digits_stop [OF ip not_isDigit_marks(1)]
      dropWhile_digits_stop [OF ip not_isDigit_marks(1)]
      takeWhile_digits_stop [OF fp not_isDigit_marks(2)]
      dropWhile_digits_stop [OF fp not_isDigit_marks(2)])

lemma floatCore_posToString: "floatCore neg (posToString M e) = roundDec neg M e"
proof -
  define ds where "ds = show_nat M"
  define k where "k = int (length ds)"
  define n where "n = k + e"
  have dig: "list_all isDigit ds" by (simp add: ds_def show_nat_digits)
  have val: "radixValue 10 ds = M" by (simp add: ds_def radixValue_show_nat)
  have ne: "ds \<noteq> []" by (simp add: ds_def show_nat_nonempty)
  have target: "roundDec neg (M * 10 ^ nat e) 0 = roundDec neg M e" if "0 \<le> e"
    by (rule roundDec_cong) (simp add: power_int_def that)
  have unfold: "posToString M e =
      (if k \<le> n \<and> n \<le> 21 then ds @ replicate (nat (n - k)) (CHR ''0'')
       else if 0 < n \<and> n \<le> 21 then take (nat n) ds @ ''.'' @ drop (nat n) ds
       else if - 6 < n \<and> n \<le> 0 then ''0.'' @ replicate (nat (- n)) (CHR ''0'') @ ds
       else if k = 1
         then ds @ ''e'' @ (if n - 1 < 0 then ''-'' else ''+'') @ show_nat (nat \<bar>n - 1\<bar>)
         else [hd ds] @ ''.'' @ tl ds @ ''e'' @ (if n - 1 < 0 then ''-'' else ''+'')
              @ show_nat (nat \<bar>n - 1\<bar>))"
    by (simp add: posToString_def Let_def ds_def k_def n_def)
  consider (pad) "k \<le> n \<and> n \<le> 21"
    | (point) "\<not> (k \<le> n \<and> n \<le> 21)" "0 < n \<and> n \<le> 21"
    | (small) "\<not> (k \<le> n \<and> n \<le> 21)" "\<not> (0 < n \<and> n \<le> 21)" "- 6 < n \<and> n \<le> 0"
    | (expo) "\<not> (k \<le> n \<and> n \<le> 21)" "\<not> (0 < n \<and> n \<le> 21)" "\<not> (- 6 < n \<and> n \<le> 0)"
    by blast
  then show ?thesis
  proof cases
    case pad
    define zs where "zs = replicate (nat e) (CHR ''0'')"
    from pad have e0: "0 \<le> e" by (simp add: n_def)
    have "n - k = e" by (simp add: n_def)
    with pad have str: "posToString M e = ds @ zs"
      by (simp add: unfold zs_def)
    have all: "list_all isDigit (ds @ zs)"
      using dig by (auto simp add: isDigit_zero list_all_iff zs_def)
    have v: "radixValue 10 (ds @ zs) = M * 10 ^ nat e"
      by (simp add: radixValue_append val radixValue_zeros zs_def)
    have "floatCore neg (ds @ zs) = roundDec neg (M * 10 ^ nat e) 0"
      using floatCore_int [OF all, of neg] ne by (simp add: v)
    also have "\<dots> = roundDec neg M e"
      by (rule target [OF e0])
    finally show ?thesis by (simp add: str)
  next
    case point
    define ip where "ip = take (nat n) ds"
    define fp where "fp = drop (nat n) ds"
    from point have nk: "n < k" by auto
    have str: "posToString M e = ip @ CHR ''.'' # fp"
      using point by (simp add: unfold ip_def fp_def)
    have d1: "list_all isDigit ip" and d2: "list_all isDigit fp"
      using dig by (auto simp add: list_all_iff ip_def fp_def dest: in_set_takeD in_set_dropD)
    have tne: "ip \<noteq> []" using point ne by (cases ds) (auto simp add: ip_def)
    have len: "- int (length fp) = e"
      using point nk by (simp add: k_def n_def fp_def)
    have cat: "ip @ fp = ds" by (simp add: ip_def fp_def)
    have "floatCore neg (ip @ CHR ''.'' # fp) = roundDec neg M e"
      using floatCore_point [OF d1 d2 tne, of neg] by (simp add: cat val len)
    then show ?thesis by (simp add: str)
  next
    case small
    define fp where "fp = replicate (nat (- n)) (CHR ''0'') @ ds"
    have str: "posToString M e = ''0'' @ CHR ''.'' # fp"
      using small by (simp add: unfold fp_def)
    have z: "list_all isDigit ''0''" by (simp add: isDigit_zero)
    have fr: "list_all isDigit fp"
      using dig by (auto simp add: isDigit_zero list_all_iff fp_def)
    have "''0'' @ fp = replicate (Suc (nat (- n))) (CHR ''0'') @ ds"
      by (simp add: fp_def)
    then have v: "radixValue 10 (''0'' @ fp) = M"
      using radixValue_append [of 10 "replicate (Suc (nat (- n))) (CHR ''0'')" ds]
        radixValue_zeros [of "Suc (nat (- n))"] val
      by simp
    have len: "- int (length fp) = e"
      using small by (simp add: k_def n_def fp_def)
    have "floatCore neg (''0'' @ CHR ''.'' # fp) = roundDec neg M e"
      using floatCore_point [OF z fr, of neg] by (simp only: v len) simp
    then show ?thesis by (simp only: str)
  next
    case expo
    define ex where "ex = n - 1"
    define ep where "ep = (if ex < 0 then ''-'' else ''+'') @ show_nat (nat \<bar>ex\<bar>)"
    have pe: "parseExponent (CHR ''e'' # ep) = ex"
      using parseExponent_expo [of ex] by (simp add: ep_def)
    obtain d rest where dsd: "ds = d # rest" using ne by (cases ds) auto
    have dd: "list_all isDigit [d]" and dr: "list_all isDigit rest"
      using dig dsd by simp_all
    have v: "radixValue 10 ([d] @ rest) = M" using val dsd by simp
    have "posToString M e =
        (if k = 1
         then ds @ ''e'' @ (if n - 1 < 0 then ''-'' else ''+'') @ show_nat (nat \<bar>n - 1\<bar>)
         else [hd ds] @ ''.'' @ tl ds @ ''e'' @ (if n - 1 < 0 then ''-'' else ''+'')
              @ show_nat (nat \<bar>n - 1\<bar>))"
      using expo by (simp only: unfold if_False)
    then have str0: "posToString M e =
        (if k = 1 then ds @ CHR ''e'' # ep else [hd ds] @ CHR ''.'' # tl ds @ CHR ''e'' # ep)"
      by (simp add: ex_def ep_def)
    show ?thesis
    proof (cases "k = 1")
      case True
      then have rest: "rest = []" using dsd by (simp add: k_def)
      have str: "posToString M e = [d] @ CHR ''e'' # ep"
        using True dsd rest by (simp add: str0)
      have e_eq: "ex = e" using True by (simp add: ex_def n_def)
      have "floatCore neg ([d] @ CHR ''e'' # ep) = roundDec neg M e"
        using floatCore_exp [OF dd, of neg ep] v rest by (simp add: pe e_eq)
      then show ?thesis by (simp only: str)
    next
      case False
      have str: "posToString M e = [d] @ CHR ''.'' # rest @ CHR ''e'' # ep"
        using False dsd by (simp add: str0)
      have e_eq: "ex - int (length rest) = e" using dsd by (simp add: ex_def n_def k_def)
      have "floatCore neg ([d] @ CHR ''.'' # rest @ CHR ''e'' # ep) = roundDec neg M e"
        using floatCore_point_exp [OF dd dr, of neg ep] by (simp only: v pe e_eq) simp
      then show ?thesis by (simp only: str)
    qed
  qed
qed

lemma posToString_head:
  "\<exists>d rest. posToString M e = d # rest \<and> isDigit d"
proof -
  obtain d ds where ds: "show_nat M = d # ds"
    using show_nat_nonempty [of M] by (cases "show_nat M") auto
  have d: "isDigit d" using show_nat_digits [of M] ds by simp
  show ?thesis
    using d
    by (auto simp add: posToString_def Let_def ds isDigit_zero take_Cons' split: if_splits)
qed

lemma not_isDigit_I: "\<not> isDigit (CHR ''I'')"
  by (simp add: isDigit_def isRadixDigit_def digitVal_def)

lemma not_ws_minus: "\<not> isWhiteSpace (CHR ''-'')"
  by (simp add: isWhiteSpace_def)

lemma digit_start:
  assumes "isDigit d"
  shows "trimStart (d # rest) = d # rest"
    and "\<not> startsWith (d # rest) ''-''" and "\<not> startsWith (d # rest) ''+''"
    and "\<not> startsWith (d # rest) ''Infinity''"
  using assms not_ws_digit [of d] not_isDigit_marks not_isDigit_I
  by (auto simp add: trimStart_def startsWith_def)

lemma parseFloatStr_numToString_Inf:
  "parseFloatStr (numToString PosInf) = PosInf"
  "parseFloatStr (numToString NegInf) = NegInf"
  by (simp_all add: numToString_def parseFloatStr_def Let_def trimStart_def isWhiteSpace_def
      startsWith_def)

lemma lowerChar_idem: "lowerChar (lowerChar c) = lowerChar c"
  by (auto simp add: lowerChar_def Let_def of_char_of)

lemma toLowerCase_idem: "toLowerCase (toLowerCase s) = toLowerCase s"
  by (simp add: toLowerCase_def lowerChar_idem)

lemma show_nat_length_lower: "0 < n \<Longrightarrow> 10 ^ (length (show_nat n) - 1) \<le> n"
proof (induction n rule: show_nat.induct)
  case (1 n)
  show ?case
  proof (cases "n < 10")
    case True
    with "1.prems" show ?thesis by (subst show_nat.simps) simp
  next
    case False
    then have pos: "0 < n div 10" by simp
    have ne: "show_nat (n div 10) \<noteq> []" by (rule show_nat_nonempty)
    have "10 ^ (length (show_nat (n div 10)) - 1) \<le> n div 10"
      using "1.IH" [OF False pos] .
    then have "10 * 10 ^ (length (show_nat (n div 10)) - 1) \<le> 10 * (n div 10)" by simp
    also have "\<dots> \<le> n" by simp
    finally have "10 ^ Suc (length (show_nat (n div 10)) - 1) \<le> n" by simp
    moreover have "Suc (length (show_nat (n div 10)) - 1) = length (show_nat (n div 10))"
      using ne by (cases "show_nat (n div 10)") simp_all
    ultimately have "10 ^ length (show_nat (n div 10)) \<le> n" by (simp only:)
    with False show ?thesis by (subst show_nat.simps) simp
  qed
qed

lemma isRadixDigit_10: "isRadixDigit 10 = isDigit"
  by (rule ext) (simp add: isDigit_def)

lemma digits_bound:
  assumes M: "0 < M" and small: "int M * 10 ^ j < 10 ^ B"
  shows "length (show_nat M) + j \<le> B"
proof -
  define k where "k = length (show_nat M)"
  have k: "0 < k" using show_nat_nonempty [of M] by (simp add: k_def)
  have "10 ^ (k - 1) \<le> M" using show_nat_length_lower [OF M] by (simp add: k_def)
  then have le: "(10::nat) ^ (k - 1) * 10 ^ j \<le> M * 10 ^ j" by simp
  have "int (M * 10 ^ j) < int (10 ^ B)" using small by simp
  then have "M * 10 ^ j < 10 ^ B" by (simp only: of_nat_less_iff)
  with le have "(10::nat) ^ (k - 1) * 10 ^ j < 10 ^ B" by (rule le_less_trans)
  then have "(10::nat) ^ (k - 1 + j) < 10 ^ B" by (simp add: power_add)
  then have "k - 1 + j < B" by (rule power_less_imp_less_exp [rotated]) simp
  with k show ?thesis by (simp add: k_def)
qed

lemma posToString_pad:
  assumes M: "0 < M" and e: "0 \<le> e" and small: "int M * 10 ^ nat e < 10 ^ 21"
  shows "posToString M e = show_nat M @ replicate (nat e) (CHR ''0'')"
proof -
  have "length (show_nat M) + nat e \<le> 21"
    by (rule digits_bound [OF M small])
  then have "int (length (show_nat M)) + e \<le> 21" using e by linarith
  then show ?thesis
    using e by (simp add: posToString_def Let_def)
qed

lemma shortestSearch_sound:
  "shortestSearch M e j = Some (s, q) \<Longrightarrow> roundDec False s q = Dec (int M) e"
  by (induction j) (auto simp add: Let_def split: if_splits)

lemma shortestSearch_cases:
  assumes "shortestSearch M e (Suc j) = Some (s, q)"
  shows "(q = e + int (Suc j) \<and> (s = M div 10 ^ Suc j \<or> s = M div 10 ^ Suc j + 1))
    \<or> shortestSearch M e j = Some (s, q)"
  using assms by (auto simp add: Let_def split: if_splits)

lemma dec_val_nat:
  assumes "0 \<le> s'" and "dec_val s' q' = dec_val (int s) q"
  shows "(of_nat (nat s') :: rat) * 10 powi q' = of_nat s * 10 powi q"
  using assms by (simp add: dec_val_powi)

lemma norm10_nat:
  assumes n: "norm10 (int s) q = (s', q')"
  shows "0 \<le> s'" and "(of_nat (nat s') :: rat) * 10 powi q' = of_nat s * 10 powi q"
    and "(s' = 0) = (s = 0)"
proof -
  note v = dec_val_norm10 [OF n]
  have "\<not> dec_val (int s) q < 0" by (simp add: dec_val_sign)
  with v have "\<not> dec_val s' q' < 0" by simp
  then show s': "0 \<le> s'" by (simp add: dec_val_sign)
  from dec_val_nat [OF s' v] show "(of_nat (nat s') :: rat) * 10 powi q' = of_nat s * 10 powi q" .
  have "(dec_val s' q' = 0) = (dec_val (int s) q = 0)" using v by simp
  then show "(s' = 0) = (s = 0)" by (simp add: dec_val_sign)
qed

lemma shortest_sound:
  assumes d: "roundDec False M e = Dec (int M) e" and M: "0 < M"
  shows "\<exists>s q. shortest M e = (s, q) \<and> 0 < s \<and> roundDec False s q = Dec (int M) e"
proof (cases "shortestSearch M e (length (show_nat M) - 1)")
  case None
  with d M show ?thesis by (simp add: shortest_def)
next
  case (Some sq)
  obtain s0 q0 where sq: "sq = (s0, q0)" by (cases sq)
  obtain s' q' where n: "norm10 (int s0) q0 = (s', q')" by (cases "norm10 (int s0) q0")
  from Some sq have r0: "roundDec False s0 q0 = Dec (int M) e"
    by (simp add: shortestSearch_sound)
  have s0: "s0 \<noteq> 0"
  proof
    assume "s0 = 0"
    with r0 M show False by (simp add: roundDec_zero signedZero_def)
  qed
  from norm10_nat [OF n] s0 have pos: "0 < nat s'" by simp
  have "roundDec False (nat s') q' = roundDec False s0 q0"
    by (rule roundDec_cong) (rule norm10_nat(2) [OF n])
  with r0 pos Some sq n show ?thesis by (simp add: shortest_def)
qed

lemma parseFloatStr_numToString_Dec:
  assumes d: "isDouble (Dec m e)"
  shows "parseFloatStr (numToString (Dec m e)) = Dec m e"
proof -
  from d have c: "canon m e" and r: "roundDec False (nat \<bar>m\<bar>) e = Dec \<bar>m\<bar> e" by simp_all
  consider (zero) "m = 0" | (neg) "m < 0" | (pos) "0 < m" by linarith
  then show ?thesis
  proof cases
    case zero
    with c have e: "e = 0" by (simp add: canon_def)
    have z: "list_all isDigit ''0''" by (simp add: isDigit_zero)
    have "floatCore False ''0'' = Dec 0 0"
      using floatCore_int [OF z, of False]
      by (simp add: radixValue_def digitVal_zero roundDec_zero signedZero_def)
    then show ?thesis
      using zero e digit_start [OF isDigit_zero, of "[]"]
      by (simp add: numToString_def norm10.simps parseFloatStr_core Let_def)
  next
    case neg
    define M where "M = nat \<bar>m\<bar>"
    have M: "0 < M" and mM: "int M = \<bar>m\<bar>" "- int M = m" using neg by (simp_all add: M_def)
    from r have rM: "roundDec False M e = Dec (int M) e" by (simp add: M_def)
    from shortest_sound [OF rM M] obtain s q where
      sh: "shortest M e = (s, q)" and rs: "roundDec False s q = Dec (int M) e" by blast
    obtain d rest where str: "posToString s q = d # rest" and d: "isDigit d"
      using posToString_head [of s q] by blast
    have "roundDec True s q = Dec (- int M) e"
      using roundDec_flip [OF rs] M by simp
    then have core: "floatCore True (posToString s q) = Dec m e"
      by (simp only: floatCore_posToString mM(2))
    have "numToString (Dec m e) = CHR ''-'' # posToString s q"
      using neg c sh by (simp add: numToString_def norm10_canon_id M_def)
    then show ?thesis
      using core digit_start(4) [OF d, of rest] not_ws_minus
      by (simp add: parseFloatStr_core Let_def trimStart_def str)
  next
    case pos
    define M where "M = nat \<bar>m\<bar>"
    have M: "0 < M" and mM: "int M = m" using pos by (simp_all add: M_def)
    from r pos have rM: "roundDec False M e = Dec (int M) e" by (simp add: M_def)
    from shortest_sound [OF rM M] obtain s q where
      sh: "shortest M e = (s, q)" and rs: "roundDec False s q = Dec (int M) e" by blast
    obtain d rest where str: "posToString s q = d # rest" and d: "isDigit d"
      using posToString_head [of s q] by blast
    have core: "floatCore False (posToString s q) = Dec m e"
      using rs by (simp add: floatCore_posToString mM)
    have "numToString (Dec m e) = posToString s q"
      using pos c sh by (simp add: numToString_def norm10_canon_id M_def)
    then show ?thesis
      using core digit_start [OF d, of rest]
      by (simp add: parseFloatStr_core Let_def str)
  qed
qed

lemma roundFrac_not_NaN: "roundFrac neg a b \<noteq> NaN"
  by (simp add: roundFrac_def Let_def signedZero_def signedInfinity_def fromDyadic_def mkDec_def
      split: prod.splits)

lemma roundDec_not_NaN: "roundDec neg N E \<noteq> NaN"
  by (simp add: roundDec_def roundFrac_not_NaN)

lemma isDouble_parseFloatStr: "isDouble (parseFloatStr s)"
  by (simp add: parseFloatStr_def Let_def roundDec_isDouble)

lemma parseFloatStr_numToString:
  assumes "isDouble x" and "x \<noteq> NaN" and "x \<noteq> NegZero"
  shows "parseFloatStr (numToString x) = x"
  using assms
  by (cases x) (simp_all add: parseFloatStr_numToString_Dec parseFloatStr_numToString_Inf)

lemma parseIntStr_digits:
  assumes dig: "list_all isDigit (d # rest)"
  shows "parseIntStr (d # rest) 10 = roundDec False (radixValue 10 (d # rest)) 0"
    and "parseIntStr (CHR ''-'' # d # rest) 10 = roundDec True (radixValue 10 (d # rest)) 0"
proof -
  from dig have d: "isDigit d" by simp
  have tw: "takeWhile isDigit (d # rest) = d # rest"
    by (rule takeWhile_digits_all [OF dig])
  show "parseIntStr (d # rest) 10 = roundDec False (radixValue 10 (d # rest)) 0"
    using digit_start [OF d, of rest] tw
    by (simp add: parseIntStr_def Let_def isRadixDigit_10)
  show "parseIntStr (CHR ''-'' # d # rest) 10 = roundDec True (radixValue 10 (d # rest)) 0"
    using not_ws_minus tw
    by (simp add: parseIntStr_def Let_def isRadixDigit_10 trimStart_def)
qed

lemma shortestSearch_bound:
  assumes r: "shortestSearch M e j = Some (s, q)" and j: "10 ^ j \<le> M" and e: "0 \<le> e"
    and small: "M * 10 ^ nat e < 10 ^ K"
  shows "e \<le> q \<and> s * 10 ^ nat q \<le> 10 ^ K"
  using r j
proof (induction j)
  case 0
  then show ?case by simp
next
  case (Suc j)
  from Suc.prems(2) have j': "10 ^ j \<le> M" by simp
  from shortestSearch_cases [OF Suc.prems(1)] show ?case
  proof
    assume "shortestSearch M e j = Some (s, q)"
    from Suc.IH [OF this j'] show ?thesis .
  next
    assume c: "q = e + int (Suc j) \<and> (s = M div 10 ^ Suc j \<or> s = M div 10 ^ Suc j + 1)"
    define p where "p = (10::nat) ^ Suc j"
    define lo where "lo = M div p"
    define n where "n = nat e"
    from c e have q: "nat q = Suc j + n" by (simp add: n_def nat_add_distrib)
    have pw: "(10::nat) ^ nat q = p * 10 ^ n" by (simp only: q power_add p_def)
    have "p * 10 ^ n \<le> M * 10 ^ n" using Suc.prems(2) by (simp add: p_def)
    moreover have "M * 10 ^ n < 10 ^ K" using small by (simp only: n_def)
    ultimately have "p * 10 ^ n < 10 ^ K" by (rule le_less_trans)
    then have "(10::nat) ^ nat q < 10 ^ K" by (simp only: pw)
    then have qK: "nat q < K" by (rule power_less_imp_less_exp [rotated]) simp
    define r where "r = K - nat q"
    have K: "(10::nat) ^ K = 10 ^ r * 10 ^ nat q"
      using qK by (simp add: r_def flip: power_add)
    have "lo * p \<le> M" by (simp add: lo_def)
    then have "lo * p * 10 ^ n \<le> M * 10 ^ n" by simp
    moreover have "M * 10 ^ n < 10 ^ K" using small by (simp only: n_def)
    ultimately have "lo * p * 10 ^ n < 10 ^ K" by (rule le_less_trans)
    then have "lo * 10 ^ nat q < 10 ^ K" by (simp only: pw mult.assoc)
    then have "lo * 10 ^ nat q < 10 ^ r * 10 ^ nat q" by (simp only: K)
    then have "lo < 10 ^ r" by simp
    then have "lo + 1 \<le> 10 ^ r" by simp
    then have "(lo + 1) * 10 ^ nat q \<le> 10 ^ r * 10 ^ nat q" by (rule mult_right_mono) simp
    then have hi: "(lo + 1) * 10 ^ nat q \<le> 10 ^ K" by (simp only: K)
    have "lo * 10 ^ nat q \<le> (lo + 1) * 10 ^ nat q" by simp
    from this hi have lo: "lo * 10 ^ nat q \<le> 10 ^ K" by (rule le_trans)
    from c have "s = lo \<or> s = lo + 1" by (simp add: lo_def p_def)
    with lo hi have "s * 10 ^ nat q \<le> 10 ^ K" by blast
    with c show ?thesis by simp
  qed
qed

lemma shortest_whole:
  assumes M: "0 < M" and e: "0 \<le> e" and small: "M * 10 ^ nat e < 10 ^ K"
    and d: "roundDec False M e = Dec (int M) e"
    and top: "roundDec False 1 (int K) = Dec 1 (int K)"
  shows "\<exists>s q. shortest M e = (s, q) \<and> 0 < s \<and> 0 \<le> q \<and> s * 10 ^ nat q < 10 ^ K
           \<and> roundDec False s q = Dec (int M) e"
proof (cases "shortestSearch M e (length (show_nat M) - 1)")
  case None
  with d M e small show ?thesis by (simp add: shortest_def)
next
  case (Some sq)
  obtain s0 q0 where sq: "sq = (s0, q0)" by (cases sq)
  obtain s' q' where n: "norm10 (int s0) q0 = (s', q')" by (cases "norm10 (int s0) q0")
  from Some sq have srch: "shortestSearch M e (length (show_nat M) - 1) = Some (s0, q0)" by simp
  from srch have r0: "roundDec False s0 q0 = Dec (int M) e"
    by (rule shortestSearch_sound)
  have s0: "s0 \<noteq> 0"
  proof
    assume "s0 = 0"
    with r0 M show False by (simp add: roundDec_zero signedZero_def)
  qed
  from shortestSearch_bound [OF srch show_nat_length_lower [OF M] e small]
  have q0: "e \<le> q0" and b0: "s0 * 10 ^ nat q0 \<le> 10 ^ K" by simp_all
  from norm10_nat [OF n] s0 have pos: "0 < nat s'" and s'0: "s' \<noteq> 0" by simp_all
  from norm10_exp_mono [OF n] s'0 have q': "q0 \<le> q'" by simp
  with q0 e have q'0: "0 \<le> q'" and q00: "0 \<le> q0" by simp_all
  have rs: "roundDec False (nat s') q' = roundDec False s0 q0"
    by (rule roundDec_cong) (rule norm10_nat(2) [OF n])
  have "(of_nat (nat s' * 10 ^ nat q') :: rat) = of_nat (s0 * 10 ^ nat q0)"
    using norm10_nat(2) [OF n] q'0 q00 by (simp add: power_int_def)
  then have val: "nat s' * 10 ^ nat q' = s0 * 10 ^ nat q0" by (simp only: of_nat_eq_iff)
  have "nat s' * 10 ^ nat q' \<noteq> 10 ^ K"
  proof
    assume eq: "nat s' * 10 ^ nat q' = 10 ^ K"
    have "(of_nat (nat s') :: rat) * 10 powi q' = of_nat (nat s' * 10 ^ nat q')"
      using q'0 by (simp add: power_int_def)
    also have "\<dots> = of_nat 1 * 10 powi int K" by (simp only: eq) simp
    finally have "roundDec False (nat s') q' = roundDec False 1 (int K)" by (rule roundDec_cong)
    with rs r0 top have "Dec (int M) e = Dec 1 (int K)" by simp
    with small show False by simp
  qed
  with b0 val have "nat s' * 10 ^ nat q' < 10 ^ K" by simp
  with rs r0 pos q'0 Some sq n show ?thesis by (simp add: shortest_def)
qed

lemma parseIntStr_numToString:
  assumes d: "isDouble (Dec m e)" and e: "m = 0 \<or> 0 \<le> e"
    and small: "\<bar>m\<bar> * 10 ^ nat e < 10 ^ 21"
  shows "parseIntStr (numToString (Dec m e)) 10 = Dec m e"
proof (cases "m = 0")
  case True
  from d have c: "canon m e" by simp
  with True have "e = 0" by (simp add: canon_def)
  with True show ?thesis
    using parseIntStr_digits(1) [of "CHR ''0''" "[]"]
    by (simp add: numToString_def norm10.simps isDigit_zero radixValue_def digitVal_zero
        roundDec_zero signedZero_def)
next
  case False
  from d have c: "canon m e" and r: "roundDec False (nat \<bar>m\<bar>) e = Dec \<bar>m\<bar> e" by simp_all
  define M where "M = nat \<bar>m\<bar>"
  have M: "0 < M" and mM: "int M = \<bar>m\<bar>" using False by (simp_all add: M_def)
  from e False have e0: "0 \<le> e" by simp
  from r have rM: "roundDec False M e = Dec (int M) e" by (simp add: M_def)
  have "int (M * 10 ^ nat e) < int (10 ^ 21)" using small by (simp add: mM)
  then have sm: "M * 10 ^ nat e < 10 ^ 21" by (simp only: of_nat_less_iff)
  have top: "roundDec False 1 (int 21) = Dec 1 (int 21)" using roundDec_1e21 by simp
  from shortest_whole [OF M e0 sm rM top] obtain s q where
    sh: "shortest M e = (s, q)" and s: "0 < s" and q: "0 \<le> q"
    and b: "s * 10 ^ nat q < 10 ^ 21" and rs: "roundDec False s q = Dec (int M) e" by blast
  have "int (s * 10 ^ nat q) < int (10 ^ 21)" using b by (simp only: of_nat_less_iff)
  then have b': "int s * 10 ^ nat q < 10 ^ 21" by simp
  define z where "z = show_nat s @ replicate (nat q) (CHR ''0'')"
  have pad: "posToString s q = z"
    using posToString_pad [OF s q b'] by (simp add: z_def)
  have dig: "list_all isDigit z"
    using show_nat_digits [of s] by (auto simp add: z_def list_all_iff isDigit_zero)
  have ne: "z \<noteq> []" by (simp add: z_def show_nat_nonempty)
  have v: "radixValue 10 z = s * 10 ^ nat q"
    by (simp add: z_def radixValue_append radixValue_show_nat radixValue_zeros)
  obtain d rest where z: "z = d # rest" using ne by (cases z) auto
  have shift: "roundDec neg (s * 10 ^ nat q) 0 = roundDec neg s q" for neg
    by (rule roundDec_cong) (simp add: power_int_def q)
  show ?thesis
  proof (cases "m < 0")
    case True
    have str: "numToString (Dec m e) = CHR ''-'' # z"
      using True c sh pad by (simp add: numToString_def norm10_canon_id M_def)
    have "parseIntStr (CHR ''-'' # z) 10 = roundDec True s q"
      using parseIntStr_digits(2) [of d rest] dig v by (simp add: z shift)
    also have "\<dots> = Dec (- int M) e"
      using roundDec_flip [OF rs] M by simp
    finally show ?thesis using True by (simp add: str mM)
  next
    case nneg: False
    with False have pos: "0 < m" by simp
    have str: "numToString (Dec m e) = z"
      using pos c sh pad by (simp add: numToString_def norm10_canon_id M_def)
    have "parseIntStr z 10 = roundDec False s q"
      using parseIntStr_digits(1) [of d rest] dig v by (simp add: z shift)
    with rs pos show ?thesis by (simp add: str mM)
  qed
qed

lemma wholeNumber_roundDec: "wholeNumber (roundDec neg N 0)"
proof (cases "roundDec neg N 0")
  case (Dec M' E')
  with roundDec_whole [OF Dec] roundDec_isDouble [of neg N 0] show ?thesis by simp
qed (simp_all add: roundDec_not_NaN)

lemma parseIntStr_whole: "parseIntStr s r = NaN \<or> wholeNumber (parseIntStr s r)"
  by (simp add: parseIntStr_def Let_def wholeNumber_roundDec)

text \<open>
  Some readings and printings: the integer \<open>2 ^ 53 + 1\<close> is read as \<open>2 ^ 53\<close>, \<open>1e999\<close> as
  \<open>Infinity\<close>, \<open>0.1\<close> as the double next to one tenth, which prints as \<open>0.1\<close> again.
\<close>

lemma parseIntStr_2p53_1: "parseIntStr ''9007199254740993'' 10 = Dec 9007199254740992 0"
proof -
  have fl: "floorLog2 9007199254740993 (Suc 0) = 53"
    by (simp add: floorLog2_def bitLength_eval)
  have "roundFrac False 9007199254740993 (Suc 0) = fromDyadic False 4503599627370496 1"
  proof (rule roundFrac_unfold)
    show "max (floorLog2 9007199254740993 (Suc 0) - 52) (- 1074) = 1" by (simp add: fl)
    show "roundHalfEven (9007199254740993 * 2 ^ nat (- 1)) (Suc 0 * 2 ^ nat 1)
        = 4503599627370496"
      by (simp add: roundHalfEven_def)
  qed simp_all
  also have "\<dots> = Dec 9007199254740992 0"
    by (simp add: fromDyadic_def mkDec_def norm10.simps)
  finally have "roundDec False 9007199254740993 0 = Dec 9007199254740992 0"
    by (simp add: roundDec_def)
  then show ?thesis
    by (simp add: parseIntStr_def Let_def trimStart_def isWhiteSpace_def startsWith_def
        isRadixDigit_def digitVal_def radixValue_def)
qed

lemma parseFloatStr_1e999: "parseFloatStr ''1e999'' = PosInf"
proof -
  have "roundDec False (Suc 0) 999 = signedInfinity False"
    by (rule roundDec_overflow) simp_all
  then show ?thesis
    by (simp add: parseFloatStr_def Let_def trimStart_def isWhiteSpace_def startsWith_def
        isDigit_def isRadixDigit_def digitVal_def radixValue_def parseExponent_def
        signedInfinity_def)
qed

lemma parseFloatStr_tenth:
  "parseFloatStr ''0.1'' = Dec 1000000000000000055511151231257827021181583404541015625 (- 55)"
  using roundDec_tenth
  by (simp add: parseFloatStr_def Let_def trimStart_def isWhiteSpace_def startsWith_def
      isDigit_def isRadixDigit_def digitVal_def radixValue_def parseExponent_def)

lemma numToString_tenth:
  "numToString (Dec 1000000000000000055511151231257827021181583404541015625 (- 55)) = ''0.1''"
proof -
  have len: "length (show_nat 1000000000000000055511151231257827021181583404541015625) = 55"
    by (simp add: show_nat.simps)
  have "shortestSearch 1000000000000000055511151231257827021181583404541015625 (- 55) (Suc 53)
      = Some (1, - 1)"
    by (subst shortestSearch.simps(2))
       (simp add: Let_def roundDec_tenth [simplified] roundDec_fifth)
  then have "shortest 1000000000000000055511151231257827021181583404541015625 (- 55) = (1, - 1)"
    by (simp add: shortest_def len norm10.simps)
  then show ?thesis
    by (simp add: numToString_def norm10.simps posToString_def show_nat.simps digit_char_def)
qed

section \<open>Questionnaire answers: properties\<close>

lemma parseInt_round:
  assumes w: "wholeNumber x" and b: "below1e21 (JNum x)" and nz: "x \<noteq> NegZero"
  shows "parseInt (JNum x) 10 = Inr x"
proof -
  from w b nz obtain m e where x: "x = Dec m e" and c: "isDouble (Dec m e)"
    and e: "m = 0 \<or> 0 \<le> e"
    by (cases x) (auto simp add: below1e21_def)
  have "\<bar>m\<bar> * 10 ^ nat e < 10 ^ 21"
  proof (cases "m = 0")
    case True
    then show ?thesis by simp
  next
    case False
    with e have e0: "0 \<le> e" by simp
    from b x e0 have "\<bar>(of_int m :: rat) * 10 ^ nat e\<bar> < 10 ^ 21"
      by (simp add: below1e21_def dec_val_def)
    then have "(of_int (\<bar>m\<bar> * 10 ^ nat e) :: rat) < of_int (10 ^ 21)"
      by (simp add: abs_mult)
    then show ?thesis by (simp only: of_int_less_iff)
  qed
  from parseIntStr_numToString [OF c e this] show ?thesis
    by (simp add: parseInt_def x)
qed

lemma parseFloat_round:
  assumes "isDouble x" and "x \<noteq> NaN" and "x \<noteq> NegZero"
  shows "parseFloat (JNum x) = Inr x"
  using parseFloatStr_numToString [OF assms] by (simp add: parseFloat_def)

lemma setProp_fresh: "k \<notin> fst ` set p \<Longrightarrow> setProp p k v = p @ [(k, v)]"
  by (induction p) auto

lemma setProp_last: "k \<notin> fst ` set p \<Longrightarrow> setProp (p @ [(k, v)]) k v' = p @ [(k, v')]"
  by (induction p) auto

text \<open>One block: what it adds to the object, once the nulls are removed.\<close>

lemma intAnswer_adds:
  assumes run: "intAnswer k a p = Inr p'" and fresh: "k \<notin> fst ` set p"
  shows "\<exists>H. removeNulls p' = removeNulls p @ optProp k (map_option JNum H)
           \<and> fst ` set p' \<subseteq> insert k (fst ` set p)
           \<and> (case H of None \<Rightarrow> True | Some x \<Rightarrow> wholeNumber x)"
proof (cases "hasProp a k")
  case False
  with run have "p' = p" by (simp add: intAnswer_def)
  then show ?thesis by (intro exI [of _ None]) (auto simp add: optProp_def)
next
  case True
  with run obtain n where n: "parseInt (getProp a k) 10 = Inr n"
    and p': "p' = (if isNaN n then setProp (setProp p k (JNum n)) k JNull else setProp p k (JNum n))"
    by (auto simp add: intAnswer_def Let_def split: sum.splits)
  from n have form: "n = NaN \<or> wholeNumber n"
    using parseIntStr_whole by (auto simp add: parseInt_def split: sum.splits)
  show ?thesis
  proof (cases "n = NaN")
    case True
    with p' fresh have "p' = p @ [(k, JNull)]"
      by (simp add: isNaN_def setProp_fresh setProp_last)
    then show ?thesis
      by (intro exI [of _ None]) (auto simp add: optProp_def removeNulls_def)
  next
    case False
    with p' fresh have "p' = p @ [(k, JNum n)]"
      by (simp add: isNaN_def setProp_fresh)
    with False form show ?thesis
      by (intro exI [of _ "Some n"]) (auto simp add: optProp_def removeNulls_def)
  qed
qed

lemma sleepHoursAnswer_adds:
  assumes run: "sleepHoursAnswer a p = Inr p'" and fresh: "''sleepHours'' \<notin> fst ` set p"
  shows "\<exists>F. removeNulls p' = removeNulls p @ optProp ''sleepHours'' (map_option JNum F)
           \<and> fst ` set p' \<subseteq> insert ''sleepHours'' (fst ` set p)
           \<and> (case F of None \<Rightarrow> True | Some x \<Rightarrow> isDouble x \<and> x \<noteq> NaN)"
proof (cases "hasProp a ''sleepHours''")
  case False
  with run have "p' = p" by (simp add: sleepHoursAnswer_def)
  then show ?thesis by (intro exI [of _ None]) (auto simp add: optProp_def)
next
  case True
  with run obtain n where n: "parseFloat (getProp a ''sleepHours'') = Inr n"
    and p': "p' = (if isNaN n then setProp (setProp p ''sleepHours'' (JNum n)) ''sleepHours'' JNull
                   else setProp p ''sleepHours'' (JNum n))"
    by (auto simp add: sleepHoursAnswer_def Let_def split: sum.splits)
  from n have form: "isDouble n"
    using isDouble_parseFloatStr by (auto simp add: parseFloat_def split: sum.splits)
  show ?thesis
  proof (cases "n = NaN")
    case True
    with p' fresh have "p' = p @ [(''sleepHours'', JNull)]"
      by (simp add: isNaN_def setProp_fresh setProp_last)
    then show ?thesis
      by (intro exI [of _ None]) (auto simp add: optProp_def removeNulls_def)
  next
    case False
    with p' fresh have "p' = p @ [(''sleepHours'', JNum n)]"
      by (simp add: isNaN_def setProp_fresh)
    with False form show ?thesis
      by (intro exI [of _ "Some n"]) (auto simp add: optProp_def removeNulls_def)
  qed
qed

lemma sunExposureAnswer_adds:
  assumes run: "sunExposureAnswer a p = Inr p'" and fresh: "''sunExposure'' \<notin> fst ` set p"
  shows "\<exists>S. removeNulls p' = removeNulls p @ optProp ''sunExposure'' (map_option JStr S)
           \<and> fst ` set p' \<subseteq> insert ''sunExposure'' (fst ` set p)
           \<and> (case S of None \<Rightarrow> True | Some s \<Rightarrow> toLowerCase s = s)"
proof (cases "hasProp a ''sunExposure''")
  case False
  with run have "p' = p" by (simp add: sunExposureAnswer_def)
  then show ?thesis by (intro exI [of _ None]) (auto simp add: optProp_def)
next
  case True
  with run obtain s where "p' = setProp p ''sunExposure'' (JStr (toLowerCase s))"
    by (auto simp add: sunExposureAnswer_def split: sum.splits)
  with fresh have "p' = p @ [(''sunExposure'', JStr (toLowerCase s))]"
    by (simp add: setProp_fresh)
  then show ?thesis
    by (intro exI [of _ "Some (toLowerCase s)"])
       (auto simp add: optProp_def removeNulls_def toLowerCase_idem)
qed

lemma removeNulls_Nil [simp]: "removeNulls [] = []"
  by (simp add: removeNulls_def)

lemma processQuestionnaireAnswers_form:
  assumes obj: "\<not> falsy a" "typeof a = ''object''"
    and run: "processQuestionnaireAnswers a = Inr out"
  shows "\<exists>H S F T.
      out = JObj (optProp ''hydration'' (map_option JNum H)
                  @ optProp ''sunExposure'' (map_option JStr S)
                  @ optProp ''sleepHours'' (map_option JNum F)
                  @ optProp ''stressLevel'' (map_option JNum T))
      \<and> (case H of None \<Rightarrow> True | Some x \<Rightarrow> wholeNumber x)
      \<and> (case S of None \<Rightarrow> True | Some s \<Rightarrow> toLowerCase s = s)
      \<and> (case F of None \<Rightarrow> True | Some x \<Rightarrow> isDouble x \<and> x \<noteq> NaN)
      \<and> (case T of None \<Rightarrow> True | Some x \<Rightarrow> wholeNumber x)"
proof -
  from obj run obtain p1 p2 p3 p4 where
    s1: "intAnswer ''hydration'' a [] = Inr p1"
    and s2: "sunExposureAnswer a p1 = Inr p2"
    and s3: "sleepHoursAnswer a p2 = Inr p3"
    and s4: "intAnswer ''stressLevel'' a p3 = Inr p4"
    and out: "out = JObj (removeNulls p4)"
    by (auto simp add: processQuestionnaireAnswers_def split: sum.splits)
  from intAnswer_adds [OF s1] obtain H where
    r1: "removeNulls p1 = optProp ''hydration'' (map_option JNum H)"
    and k1: "fst ` set p1 \<subseteq> {''hydration''}"
    and H: "case H of None \<Rightarrow> True | Some x \<Rightarrow> wholeNumber x"
    by auto
  from k1 have f2: "''sunExposure'' \<notin> fst ` set p1" by auto
  from sunExposureAnswer_adds [OF s2 f2] obtain S where
    r2: "removeNulls p2 = removeNulls p1 @ optProp ''sunExposure'' (map_option JStr S)"
    and k2: "fst ` set p2 \<subseteq> insert ''sunExposure'' (fst ` set p1)"
    and S: "case S of None \<Rightarrow> True | Some s \<Rightarrow> toLowerCase s = s"
    by auto
  from k1 k2 have k2': "fst ` set p2 \<subseteq> {''sunExposure'', ''hydration''}" by blast
  then have f3: "''sleepHours'' \<notin> fst ` set p2" by blast
  from sleepHoursAnswer_adds [OF s3 f3] obtain F where
    r3: "removeNulls p3 = removeNulls p2 @ optProp ''sleepHours'' (map_option JNum F)"
    and k3: "fst ` set p3 \<subseteq> insert ''sleepHours'' (fst ` set p2)"
    and F: "case F of None \<Rightarrow> True | Some x \<Rightarrow> isDouble x \<and> x \<noteq> NaN"
    by auto
  from k2' k3 have "fst ` set p3 \<subseteq> {''sleepHours'', ''sunExposure'', ''hydration''}" by blast
  then have f4: "''stressLevel'' \<notin> fst ` set p3" by blast
  from intAnswer_adds [OF s4 f4] obtain T where
    r4: "removeNulls p4 = removeNulls p3 @ optProp ''stressLevel'' (map_option JNum T)"
    and T: "case T of None \<Rightarrow> True | Some x \<Rightarrow> wholeNumber x"
    by auto
  from out r1 r2 r3 r4 H S F T show ?thesis by auto
qed

lemma wholeNumber_not_NaN: "wholeNumber x \<Longrightarrow> (x = NaN) = False"
  by (cases x) simp_all

lemma processQuestionnaireAnswers_fixed:
  assumes H: "case H of None \<Rightarrow> True
      | Some x \<Rightarrow> wholeNumber x \<and> below1e21 (JNum x) \<and> x \<noteq> NegZero"
    and S: "case S of None \<Rightarrow> True | Some s \<Rightarrow> toLowerCase s = s"
    and F: "case F of None \<Rightarrow> True | Some x \<Rightarrow> isDouble x \<and> x \<noteq> NaN \<and> x \<noteq> NegZero"
    and T: "case T of None \<Rightarrow> True
      | Some x \<Rightarrow> wholeNumber x \<and> below1e21 (JNum x) \<and> x \<noteq> NegZero"
  shows "processQuestionnaireAnswers
      (JObj (optProp ''hydration'' (map_option JNum H)
             @ optProp ''sunExposure'' (map_option JStr S)
             @ optProp ''sleepHours'' (map_option JNum F)
             @ optProp ''stressLevel'' (map_option JNum T)))
    = Inr (JObj (optProp ''hydration'' (map_option JNum H)
             @ optProp ''sunExposure'' (map_option JStr S)
             @ optProp ''sleepHours'' (map_option JNum F)
             @ optProp ''stressLevel'' (map_option JNum T)))"
  using assms
  by (cases H; cases S; cases F; cases T)
     (simp_all add: processQuestionnaireAnswers_def intAnswer_def sunExposureAnswer_def
       sleepHoursAnswer_def optProp_def parseInt_round parseFloat_round callToString_def
       wholeNumber_not_NaN isNaN_def removeNulls_def Let_def)

text \<open>
  C8, as amended. On every input object for which \<open>processQuestionnaireAnswers\<close>
  returns, whose normalized \<open>hydration\<close> and \<open>stressLevel\<close>, where present, are below
  \<open>10 ^ 21\<close> in magnitude, and none of whose normalized \<open>hydration\<close>, \<open>sleepHours\<close> and
  \<open>stressLevel\<close> is negative zero, applying the function to its output returns that
  output.
\<close>

theorem processQuestionnaireAnswers_idempotent_below_1e21:
  assumes obj: "\<not> falsy answers" "typeof answers = ''object''"
    and run: "processQuestionnaireAnswers answers = Inr out"
    and h: "below1e21 (getProp out ''hydration'')"
    and t: "below1e21 (getProp out ''stressLevel'')"
    and hz: "getProp out ''hydration'' \<noteq> JNum NegZero"
    and fz: "getProp out ''sleepHours'' \<noteq> JNum NegZero"
    and tz: "getProp out ''stressLevel'' \<noteq> JNum NegZero"
  shows "processQuestionnaireAnswers out = Inr out"
proof -
  from processQuestionnaireAnswers_form [OF obj run] obtain H S F T where
    out: "out = JObj (optProp ''hydration'' (map_option JNum H)
                  @ optProp ''sunExposure'' (map_option JStr S)
                  @ optProp ''sleepHours'' (map_option JNum F)
                  @ optProp ''stressLevel'' (map_option JNum T))"
    and H: "case H of None \<Rightarrow> True | Some x \<Rightarrow> wholeNumber x"
    and S: "case S of None \<Rightarrow> True | Some s \<Rightarrow> toLowerCase s = s"
    and F: "case F of None \<Rightarrow> True | Some x \<Rightarrow> isDouble x \<and> x \<noteq> NaN"
    and T: "case T of None \<Rightarrow> True | Some x \<Rightarrow> wholeNumber x"
    by blast
  have H': "case H of None \<Rightarrow> True
      | Some x \<Rightarrow> wholeNumber x \<and> below1e21 (JNum x) \<and> x \<noteq> NegZero"
    using H h hz by (cases H) (simp_all add: out optProp_def)
  have F': "case F of None \<Rightarrow> True | Some x \<Rightarrow> isDouble x \<and> x \<noteq> NaN \<and> x \<noteq> NegZero"
    using F fz by (cases H; cases S; cases F) (simp_all add: out optProp_def)
  have T': "case T of None \<Rightarrow> True
      | Some x \<Rightarrow> wholeNumber x \<and> below1e21 (JNum x) \<and> x \<noteq> NegZero"
    using T t tz by (cases H; cases S; cases F; cases T) (simp_all add: out optProp_def)
  from processQuestionnaireAnswers_fixed [OF H' S F' T'] show ?thesis
    by (simp only: out)
qed

lemma processQuestionnaireAnswers_no_null:
  assumes "processQuestionnaireAnswers a = Inr (JObj kvs)"
  shows "list_all (\<lambda>(k, v). v \<noteq> JNull \<and> v \<noteq> JUndefined) kvs"
  using assms
  by (auto simp add: processQuestionnaireAnswers_def removeNulls_def list_all_iff
      split: if_splits sum.splits)

lemmas eval_defs =
  processQuestionnaireAnswers_def intAnswer_def sunExposureAnswer_def sleepHoursAnswer_def
  removeNulls_def parseInt_def parseFloat_def callToString_def parseIntStr_def parseFloatStr_def
  parseExponent_def numToString_def shortest_def posToString_def trimStart_def
  isWhiteSpace_def startsWith_def isRadixDigit_def isDigit_def digitVal_def radixValue_def
  mkDec_def norm10.simps show_nat.simps digit_char_def isNaN_def toLowerCase_def lowerChar_def
  char_of_def bit_Suc_0_iff Let_def roundDec_small roundDec_zero signedZero_def

text \<open>
  C3. The claim asks that the function return on every input object, dropping each key
  whose coercion fails. A \<open>null\<close> under \<open>hydration\<close> is dropped so, but a \<open>null\<close> under
  \<open>sunExposure\<close> makes the call of \<open>toString\<close> throw a \<open>TypeError\<close>.
\<close>

theorem processQuestionnaireAnswers_null_sunExposure:
  "processQuestionnaireAnswers (JObj [(''sunExposure'', JNull)]) =
     Inl (TypeError ''Cannot read properties of null (reading 'toString')'')
   \<and> processQuestionnaireAnswers (JObj [(''hydration'', JNull)]) = Inr (JObj [])"
  by (simp add: eval_defs)

lemma example_answers_result:
  "processQuestionnaireAnswers example_answers = Inr example_normalized"
  by (simp add: example_answers_def example_normalized_def eval_defs roundDec_7_5)

theorem processQuestionnaireAnswers_idempotent_below_1e21_witness:
  "\<not> falsy example_answers \<and> typeof example_answers = ''object''
   \<and> processQuestionnaireAnswers example_answers = Inr example_normalized
   \<and> below1e21 (getProp example_normalized ''hydration'')
   \<and> below1e21 (getProp example_normalized ''stressLevel'')
   \<and> getProp example_normalized ''hydration'' \<noteq> JNum NegZero
   \<and> getProp example_normalized ''sleepHours'' \<noteq> JNum NegZero
   \<and> getProp example_normalized ''stressLevel'' \<noteq> JNum NegZero
   \<and> processQuestionnaireAnswers example_normalized = Inr example_normalized"
proof -
  have obj: "\<not> falsy example_answers" "typeof example_answers = ''object''"
    by (simp_all add: example_answers_def)
  have h: "below1e21 (getProp example_normalized ''hydration'')"
    by (simp add: example_normalized_def below1e21_def dec_val_def)
  have t: "below1e21 (getProp example_normalized ''stressLevel'')"
    by (simp add: example_normalized_def below1e21_def)
  have z: "getProp example_normalized ''hydration'' \<noteq> JNum NegZero"
    "getProp example_normalized ''sleepHours'' \<noteq> JNum NegZero"
    "getProp example_normalized ''stressLevel'' \<noteq> JNum NegZero"
    by (simp_all add: example_normalized_def)
  from processQuestionnaireAnswers_idempotent_below_1e21 [OF obj example_answers_result h t z]
    obj example_answers_result h t z
  show ?thesis by simp
qed

lemma roundDec_1e21_digits: "roundDec False 1000000000000000000000 0 = Dec 1 21"
proof -
  have "roundDec False 1000000000000000000000 0 = roundDec False 1 21"
    by (rule roundDec_cong) simp
  then show ?thesis by (simp only: roundDec_1e21)
qed

text \<open>
  The claim as stated fails where a count reaches \<open>10 ^ 21\<close>: the string of 1 and 21
  zeros is normalized to the number \<open>1e21\<close>, which prints as \<open>1e+21\<close>, and a second
  pass reads that as 1.
\<close>

theorem processQuestionnaireAnswers_idempotent_counterexample:
  "processQuestionnaireAnswers (JObj [(''hydration'', JStr ''1000000000000000000000'')]) =
     Inr (JObj [(''hydration'', JNum (Dec 1 21))])
   \<and> processQuestionnaireAnswers (JObj [(''hydration'', JNum (Dec 1 21))]) =
     Inr (JObj [(''hydration'', JNum (Dec 1 0))])"
  by (simp add: eval_defs roundDec_1e21_digits)

text \<open>
  Negative zero is not a fixed point either: the string \<open>-0\<close> is normalized to \<open>-0\<close>, which
  prints as \<open>0\<close>, and a second pass reads that as \<open>+0\<close>; so it is under \<open>hydration\<close> and
  under \<open>sleepHours\<close>.
\<close>

lemma processQuestionnaireAnswers_negative_zero:
  "processQuestionnaireAnswers (JObj [(''hydration'', JStr ''-0'')]) =
     Inr (JObj [(''hydration'', JNum NegZero)])
   \<and> processQuestionnaireAnswers (JObj [(''hydration'', JNum NegZero)]) =
     Inr (JObj [(''hydration'', JNum (Dec 0 0))])
   \<and> processQuestionnaireAnswers (JObj [(''sleepHours'', JStr ''-0'')]) =
     Inr (JObj [(''sleepHours'', JNum NegZero)])
   \<and> processQuestionnaireAnswers (JObj [(''sleepHours'', JNum NegZero)]) =
     Inr (JObj [(''sleepHours'', JNum (Dec 0 0))])"
  by (simp add: eval_defs)

end
